theory Spec2Isabelle
  imports Main "HOL-Library.Word" "HOL-Library.Sublist"
begin

unbundle bit_operations_syntax

section \<open>Constants (internal/constants/constants.go)\<close>

type_synonym byte = "8 word"
type_synonym uint32 = "32 word"
type_synonym uint64 = "64 word"

definition MCSVersion :: byte where "MCSVersion = 41"

text \<open>Processing states of the parser (an \<open>iota\<close> block, so 0, 1, 2, 3).\<close>

definition MCSVersionTagAndSize :: int where "MCSVersionTagAndSize = 0"
definition MCSTagAndSize :: int where "MCSTagAndSize = 1"
definition MCSSize :: int where "MCSSize = 2"
definition MCSProtoBytes :: int where "MCSProtoBytes = 3"

definition VersionPacketLen :: nat where "VersionPacketLen = 1"
definition TagPacketLen :: nat where "TagPacketLen = 1"
definition SizePacketLenMax :: nat where "SizePacketLenMax = 5"

definition HeartbeatPingTag :: byte where "HeartbeatPingTag = 0"
definition HeartbeatAckTag :: byte where "HeartbeatAckTag = 1"
definition LoginRequestTag :: byte where "LoginRequestTag = 2"
definition LoginResponseTag :: byte where "LoginResponseTag = 3"
definition CloseTag :: byte where "CloseTag = 4"
definition MessageStanzaTag :: byte where "MessageStanzaTag = 5"
definition PresenceStanzaTag :: byte where "PresenceStanzaTag = 6"
definition IqStanzaTag :: byte where "IqStanzaTag = 7"
definition DataMessageStanzaTag :: byte where "DataMessageStanzaTag = 8"
definition BatchPresenceStanzaTag :: byte where "BatchPresenceStanzaTag = 9"
definition StreamErrorStanzaTag :: byte where "StreamErrorStanzaTag = 10"
definition HttpRequestTag :: byte where "HttpRequestTag = 11"
definition HttpResponseTag :: byte where "HttpResponseTag = 12"
definition BindAccountRequestTag :: byte where "BindAccountRequestTag = 13"
definition BindAccountResponseTag :: byte where "BindAccountResponseTag = 14"
definition TalkMetadataTag :: byte where "TalkMetadataTag = 15"

lemmas state_defs =
  MCSVersionTagAndSize_def MCSTagAndSize_def MCSSize_def MCSProtoBytes_def

lemmas tag_defs =
  HeartbeatPingTag_def HeartbeatAckTag_def LoginRequestTag_def LoginResponseTag_def
  CloseTag_def IqStanzaTag_def DataMessageStanzaTag_def StreamErrorStanzaTag_def

section \<open>Errors\<close>

text \<open>
  Go errors as values. \<open>Wrap s e\<close> is \<open>fmt.Errorf(s + ": %w", e)\<close>; the errors that
  carry a formatted number keep the number. \<open>EOF\<close> and \<open>ErrUnexpectedEOF\<close> are
  the two errors of \<open>io.ReadFull\<close> on a stream that ends, \<open>NetTimeout\<close> is a
  \<open>net.Error\<close> whose \<open>Timeout()\<close> is true, \<open>ErrSyntax\<close> and \<open>ErrRange\<close> are the
  errors of \<open>strconv.ParseUint\<close>.
\<close>

datatype err =
    EOF
  | ErrUnexpectedEOF
  | NetTimeout
  | ErrSyntax
  | ErrRange
  | VarintTooLong
  | UnexpectedVersion byte
  | UnknownTag byte
  | UnexpectedState int
  | ProtoErr
  | DialErr
  | WriteErr
  | ServerClose
  | Wrap string err

section \<open>Protobuf messages\<close>

text \<open>
  The generated message types of package \<open>pb\<close>, with the fields this code reads or
  writes. The fields of a data message are read through their getters, which give the
  zero value for an absent field, so a field is its getter's value. A login request is
  either the empty message \<open>&pb.LoginRequest{}\<close> of the parser (\<open>None\<close>) or one with the
  fields that \<open>buildLoginRequest\<close> sets. The other message types have no field that the
  client looks at.
\<close>

record AppData =
  Key :: string
  Value :: string

record DataMessageStanza =
  PersistentId :: string
  From :: string
  Category :: string
  AppData :: "AppData list"
  RawData :: "byte list"

record Setting =
  Name :: string
  SettingValue :: string

datatype AuthService = LoginRequest_ANDROID_ID

record LoginRequest =
  AdaptiveHeartbeat :: bool
  AuthService :: AuthService
  AuthToken :: string
  Id :: string
  Domain :: string
  DeviceId :: string
  NetworkType :: int
  Resource :: string
  User :: string
  UseRmq2 :: bool
  Setting :: "Setting list"
  ClientEvent :: "unit list"
  ReceivedPersistentId :: "string list"

datatype proto =
    HeartbeatPing
  | HeartbeatAck
  | LoginRequestMsg "LoginRequest option"
  | LoginResponse
  | Close
  | IqStanza
  | DataMessageStanzaMsg DataMessageStanza
  | StreamErrorStanza

text \<open>
  The protobuf library (\<open>google.golang.org/protobuf/proto\<close>) is outside the repository
  and is a parameter of the model: \<open>Unmarshal data msg\<close> fills an empty message from a
  body or fails, \<open>Marshal msg\<close> gives the wire bytes or fails.
\<close>

record protobuf =
  Unmarshal :: "byte list \<Rightarrow> proto \<Rightarrow> err + proto"
  Marshal :: "proto \<Rightarrow> err + byte list"

text \<open>The zero value \<open>&pb.DataMessageStanza{}\<close>: every getter gives the zero value.\<close>

definition emptyDataMessageStanza :: DataMessageStanza where
  "emptyDataMessageStanza =
     \<lparr>PersistentId = [], From = [], Category = [], AppData = [], RawData = []\<rparr>"

section \<open>The wire codec and the parser (internal/parser)\<close>

record Message =
  Tag :: byte
  Object :: proto

text \<open>
  The parser reads from the connection. \<open>reader\<close> is the bytes the peer has sent and
  the parser has not read yet; when they run out the peer has closed the stream.
\<close>

record Parser =
  reader :: "byte list"
  state :: int
  data :: "byte list"
  sizePacketSoFar :: int
  messageTag :: byte
  messageSize :: uint32
  handshakeComplete :: bool

definition NewParser :: "byte list \<Rightarrow> Parser" where
  "NewParser r =
     \<lparr>reader = r, state = MCSVersionTagAndSize, data = [], sizePacketSoFar = 0,
      messageTag = 0, messageSize = 0, handshakeComplete = False\<rparr>"

text \<open>
  \<open>readBytes\<close> is \<open>io.ReadFull\<close> into a buffer of \<open>n\<close> bytes: all \<open>n\<close> bytes or an
  error, \<open>io.EOF\<close> when nothing was left and \<open>io.ErrUnexpectedEOF\<close> when the stream
  ended inside the buffer.
\<close>

definition readBytes :: "nat \<Rightarrow> Parser \<Rightarrow> (err + byte list) \<times> Parser" where
  "readBytes n p =
     (if n \<le> length (reader p)
      then (Inr (take n (reader p)), p\<lparr>reader := drop n (reader p)\<rparr>)
      else (Inl (if reader p = [] then EOF else ErrUnexpectedEOF), p\<lparr>reader := []\<rparr>))"

text \<open>
  \<open>readVarint\<close>: the loop \<open>for bytesRead < SizePacketLenMax\<close> with its three
  variables; the result is the Go triple \<open>(value, bytesRead, err)\<close>.
\<close>

function readVarint_loop ::
  "uint32 \<Rightarrow> nat \<Rightarrow> nat \<Rightarrow> Parser \<Rightarrow> (uint32 \<times> nat \<times> err option) \<times> Parser" where
  "readVarint_loop val shift bytesRead p =
     (if bytesRead < SizePacketLenMax then
        (case readBytes 1 p of
           (Inl e, p') \<Rightarrow> ((0, bytesRead, Some e), p')
         | (Inr buf, p') \<Rightarrow>
             (let bytesRead' = bytesRead + 1;
                  b = buf ! 0;
                  val' = val OR push_bit shift (ucast (b AND 0x7F))
              in if b AND 0x80 = 0 then ((val', bytesRead', None), p')
                 else readVarint_loop val' (shift + 7) bytesRead' p'))
      else ((0, bytesRead, Some VarintTooLong), p))"
  by pat_completeness auto
termination
  by (relation "measure (\<lambda>(val, shift, bytesRead, p). SizePacketLenMax - bytesRead)") auto

declare readVarint_loop.simps [simp del]

definition readVarint :: "Parser \<Rightarrow> (uint32 \<times> nat \<times> err option) \<times> Parser" where
  "readVarint p = readVarint_loop 0 0 0 p"

definition onGotVersion :: "Parser \<Rightarrow> err option \<times> Parser" where
  "onGotVersion p =
     (case readBytes VersionPacketLen p of
        (Inl e, p') \<Rightarrow> (Some (Wrap ''failed to read version'' e), p')
      | (Inr buf, p') \<Rightarrow>
          (let version = buf ! 0
           in if version \<noteq> MCSVersion \<and> version \<noteq> 38
              then (Some (UnexpectedVersion version), p')
              else (None, p'\<lparr>state := MCSTagAndSize\<rparr>)))"

definition onGotMessageTag :: "Parser \<Rightarrow> err option \<times> Parser" where
  "onGotMessageTag p =
     (case readBytes TagPacketLen p of
        (Inl e, p') \<Rightarrow> (Some (Wrap ''failed to read message tag'' e), p')
      | (Inr buf, p') \<Rightarrow> (None, p'\<lparr>messageTag := buf ! 0, state := MCSSize\<rparr>))"

definition onGotMessageSize :: "Parser \<Rightarrow> err option \<times> Parser" where
  "onGotMessageSize p =
     (case readVarint p of
        ((_, _, Some e), p') \<Rightarrow> (Some (Wrap ''failed to read message size'' e), p')
      | ((sz, _, None), p') \<Rightarrow>
          (let p'' = p'\<lparr>messageSize := sz\<rparr>
           in if 0 < messageSize p'' then (None, p''\<lparr>state := MCSProtoBytes\<rparr>)
              else (None, p''\<lparr>state := MCSProtoBytes\<rparr>)))"

definition unmarshalByTag :: "protobuf \<Rightarrow> byte \<Rightarrow> byte list \<Rightarrow> err + proto" where
  "unmarshalByTag pb tag bs =
     (if tag = HeartbeatPingTag then Unmarshal pb bs HeartbeatPing
      else if tag = HeartbeatAckTag then Unmarshal pb bs HeartbeatAck
      else if tag = LoginRequestTag then Unmarshal pb bs (LoginRequestMsg None)
      else if tag = LoginResponseTag then Unmarshal pb bs LoginResponse
      else if tag = CloseTag then Unmarshal pb bs Close
      else if tag = IqStanzaTag then Unmarshal pb bs IqStanza
      else if tag = DataMessageStanzaTag
        then Unmarshal pb bs (DataMessageStanzaMsg emptyDataMessageStanza)
      else if tag = StreamErrorStanzaTag then Unmarshal pb bs StreamErrorStanza
      else Inl (UnknownTag tag))"

definition createEmptyMessage :: "byte \<Rightarrow> err + proto" where
  "createEmptyMessage tag =
     (if tag = HeartbeatPingTag then Inr HeartbeatPing
      else if tag = HeartbeatAckTag then Inr HeartbeatAck
      else if tag = LoginRequestTag then Inr (LoginRequestMsg None)
      else if tag = LoginResponseTag then Inr LoginResponse
      else if tag = CloseTag then Inr Close
      else if tag = IqStanzaTag then Inr IqStanza
      else if tag = DataMessageStanzaTag
        then Inr (DataMessageStanzaMsg emptyDataMessageStanza)
      else if tag = StreamErrorStanzaTag then Inr StreamErrorStanza
      else Inl (UnknownTag tag))"

text \<open>
  The tail of \<open>onGotMessageBytes\<close>, after the message has been decoded: note the end
  of the handshake, reset the parser for the next frame, return the message.
\<close>

definition finishMessage :: "Parser \<Rightarrow> proto \<Rightarrow> (err + Message) \<times> Parser" where
  "finishMessage p protoMsg =
     (let p1 = (if messageTag p = LoginResponseTag then p\<lparr>handshakeComplete := True\<rparr> else p);
          tag = messageTag p1
      in (Inr \<lparr>Tag = tag, Object = protoMsg\<rparr>,
          p1\<lparr>messageTag := 0, messageSize := 0, state := MCSTagAndSize\<rparr>))"

definition onGotMessageBytes :: "protobuf \<Rightarrow> Parser \<Rightarrow> (err + Message) \<times> Parser" where
  "onGotMessageBytes pb p =
     (if 0 < messageSize p then
        (case readBytes (unat (messageSize p)) p of
           (Inl e, p') \<Rightarrow> (Inl (Wrap ''failed to read message bytes'' e), p')
         | (Inr buf, p') \<Rightarrow>
             (case unmarshalByTag pb (messageTag p') buf of
                Inl e \<Rightarrow> (Inl (Wrap ''failed to unmarshal message'' e), p')
              | Inr protoMsg \<Rightarrow> finishMessage p' protoMsg))
      else
        (case createEmptyMessage (messageTag p) of
           Inl e \<Rightarrow> (Inl (Wrap ''failed to create empty message'' e), p)
         | Inr protoMsg \<Rightarrow> finishMessage p protoMsg))"

lemma onGotVersion_state:
  "onGotVersion p = (None, p') \<Longrightarrow> state p' = MCSTagAndSize"
  by (auto simp: onGotVersion_def Let_def split: prod.splits sum.splits if_splits)

lemma onGotMessageTag_state:
  "onGotMessageTag p = (None, p') \<Longrightarrow> state p' = MCSSize"
  by (auto simp: onGotMessageTag_def split: prod.splits sum.splits)

lemma onGotMessageSize_state:
  "onGotMessageSize p = (None, p') \<Longrightarrow> state p' = MCSProtoBytes"
  by (auto simp: onGotMessageSize_def Let_def split: prod.splits option.splits if_splits)

text \<open>\<open>ReadMessage\<close>: the loop over the parser state, left by a \<open>return\<close>.\<close>

function ReadMessage :: "protobuf \<Rightarrow> Parser \<Rightarrow> (err + Message) \<times> Parser" where
  "ReadMessage pb p =
     (if state p = MCSVersionTagAndSize then
        (case onGotVersion p of
           (Some e, p') \<Rightarrow> (Inl e, p')
         | (None, p') \<Rightarrow> ReadMessage pb p')
      else if state p = MCSTagAndSize then
        (case onGotMessageTag p of
           (Some e, p') \<Rightarrow> (Inl e, p')
         | (None, p') \<Rightarrow> ReadMessage pb p')
      else if state p = MCSSize then
        (case onGotMessageSize p of
           (Some e, p') \<Rightarrow> (Inl e, p')
         | (None, p') \<Rightarrow> ReadMessage pb p')
      else if state p = MCSProtoBytes then onGotMessageBytes pb p
      else (Inl (UnexpectedState (state p)), p))"
  by pat_completeness auto
termination
proof (relation "measure (\<lambda>(pb, p). nat (3 - state p))", goal_cases)
  case 1
  show ?case by simp
next
  case (2 pb p x1 p')
  then show ?case
    using onGotVersion_state [of p p'] by (simp add: state_defs)
next
  case (3 pb p x1 p')
  then show ?case
    using onGotMessageTag_state [of p p'] by (simp add: state_defs)
next
  case (4 pb p x1 p')
  then show ?case
    using onGotMessageSize_state [of p p'] by (simp add: state_defs)
qed

declare ReadMessage.simps [simp del]

text \<open>
  \<open>binary.PutUvarint\<close> of the Go standard library: seven bits a byte, least
  significant group first, the high bit set on every byte but the last.
  \<open>EncodeVarint\<close> calls it on a buffer of \<open>binary.MaxVarintLen32 = 5\<close> bytes and
  returns the bytes written; a 32-bit value never needs more (lemma
  \<open>EncodeVarint_length\<close> below), so the end of the buffer is not reached.
\<close>

function PutUvarint :: "uint64 \<Rightarrow> byte list" where
  "PutUvarint x =
     (if 0x80 \<le> x then (ucast x OR 0x80) # PutUvarint (drop_bit 7 x) else [ucast x])"
  by pat_completeness auto
termination
proof (relation "measure unat", goal_cases)
  case 1
  show ?case by simp
next
  case (2 x)
  then have "0 < unat x"
    by (simp add: word_le_nat_alt)
  then have "unat x div 2 ^ 7 < unat x"
    by (intro div_less_dividend) simp_all
  then show ?case
    by (simp add: unat_drop_bit_eq drop_bit_eq_div unat_div)
qed

declare PutUvarint.simps [simp del]

definition EncodeVarint :: "uint32 \<Rightarrow> byte list" where
  "EncodeVarint v = PutUvarint (ucast v)"


section \<open>Decimal and hexadecimal numbers (Go's strconv)\<close>

text \<open>
  \<open>strconv.ParseUint(s, 10, 64)\<close>: the empty string and any character that is not a
  decimal digit are syntax errors, a value that does not fit 64 bits is a range error;
  the characters are taken from left to right, as the library's loop does, with its
  cutoff test before the multiplication.
\<close>

definition maxUint64 :: nat where "maxUint64 = 2 ^ 64 - 1"

fun ParseUint_loop :: "nat \<Rightarrow> string \<Rightarrow> err + nat" where
  "ParseUint_loop n [] = Inr n"
| "ParseUint_loop n (c # cs) =
     (if 48 \<le> (of_char c :: nat) \<and> (of_char c :: nat) \<le> 57 then
        (let d = (of_char c :: nat) - 48
         in if maxUint64 div 10 + 1 \<le> n then Inl ErrRange
            else (let n1 = n * 10 + d
                  in if maxUint64 < n1 then Inl ErrRange else ParseUint_loop n1 cs))
      else Inl ErrSyntax)"

definition ParseUint :: "string \<Rightarrow> err + nat" where
  "ParseUint s = (if s = [] then Inl ErrSyntax else ParseUint_loop 0 s)"

text \<open>\<open>strconv.FormatUint(i, 16)\<close>: lower-case hexadecimal without leading zeros.\<close>

definition hexdigit :: "nat \<Rightarrow> char" where
  "hexdigit d = ''0123456789abcdef'' ! d"

function FormatUint16 :: "nat \<Rightarrow> string" where
  "FormatUint16 n =
     (if n < 16 then [hexdigit n] else FormatUint16 (n div 16) @ [hexdigit (n mod 16)])"
  by pat_completeness auto
termination
  by (relation "measure id") auto

declare FormatUint16.simps [simp del]

section \<open>The client (package client)\<close>

datatype EventType =
    EventConnect
  | EventDisconnect
  | EventDataReceived
  | EventNotificationReceived
  | EventError
  | EventHeartbeatPing
  | EventHeartbeatAck

text \<open>
  The \<open>Data\<close> of an event: nothing, \<open>time.Now()\<close> (the clock's value is not
  modelled), an error, or the map built by \<open>handleDataMessage\<close> with its five keys.
\<close>

record DataFields =
  d_persistentId :: string
  d_from :: string
  d_category :: string
  d_appData :: "string \<rightharpoonup> string"
  d_rawData :: "byte list"

datatype EventData = NoData | Timestamp | ErrorData err | MessageData DataFields

record Event =
  Type :: EventType
  Data :: EventData

text \<open>
  A TLS connection: the bytes the peer sends on it, the bytes written to it so far,
  whether a write on it fails, and whether it has been closed.
\<close>

record Conn =
  incoming :: "byte list"
  written :: "byte list"
  wfail :: bool
  conn_closed :: bool

definition Conn_Write :: "Conn \<Rightarrow> byte list \<Rightarrow> err + Conn" where
  "Conn_Write k bs =
     (if wfail k \<or> conn_closed k then Inl WriteErr else Inr (k\<lparr>written := written k @ bs\<rparr>))"

definition Conn_Close :: "Conn \<Rightarrow> Conn" where
  "Conn_Close k = k\<lparr>conn_closed := True\<rparr>"

text \<open>
  The client. \<open>eventChan\<close> is the sequence of events handed to the channel, oldest
  first; \<open>closeChan\<close> is closed exactly when \<open>closed\<close> is set, so the field stands for
  both. \<open>mu\<close> is true while the goroutine that is running holds the write lock of
  \<open>c.mu\<close>. It matters in \<open>connect\<close> and \<open>retry\<close>, which keep the lock over all they
  do; \<open>handleMessage\<close>, \<open>handleDataMessage\<close> and \<open>sendHeartbeatAck\<close> lock and unlock
  around single assignments and reads, with no call in between, and run with the lock
  free, so their locking is left out. \<open>slept\<close> records the arguments of \<open>time.Sleep\<close>
  in seconds, in order. \<open>retryCount\<close> is a Go \<open>int\<close>, here an integer without bound.
\<close>

record Client =
  androidID :: string
  securityToken :: string
  persistentIDs :: "string list"
  conn :: "Conn option"
  parser :: "Parser option"
  eventChan :: "Event list"
  retryCount :: int
  maxRetryTimeout :: int
  mu :: bool
  closed :: bool
  debugMode :: bool
  readTimeout :: int
  slept :: "int list"

datatype ClientOption = WithDebugMode bool | WithReadTimeout int

fun applyOption :: "ClientOption \<Rightarrow> Client \<Rightarrow> Client" where
  "applyOption (WithDebugMode enabled) c = c\<lparr>debugMode := enabled\<rparr>"
| "applyOption (WithReadTimeout timeout) c = c\<lparr>readTimeout := timeout\<rparr>"

text \<open>
  \<open>NewClient\<close>. A Go slice argument is \<open>nil\<close> (\<open>None\<close>) or a list. The read timeout
  is in nanoseconds, five minutes by default.
\<close>

definition NewClient ::
  "string \<Rightarrow> string \<Rightarrow> string list option \<Rightarrow> ClientOption list \<Rightarrow> Client" where
  "NewClient aid token ids opts =
     (let persistentIDs' = (case ids of None \<Rightarrow> [] | Some l \<Rightarrow> l);
          c = \<lparr>androidID = aid, securityToken = token, persistentIDs = persistentIDs',
               conn = None, parser = None, eventChan = [], retryCount = 0,
               maxRetryTimeout = 15, mu = False, closed = False, debugMode = False,
               readTimeout = 5 * 60 * 1000000000, slept = []\<rparr>
      in foldl (\<lambda>c opt. applyOption opt c) c opts)"

text \<open>
  \<open>sendEvent\<close> offers the event to the channel. The channel drops an event only when
  it has stayed full for a second; \<open>eventChan\<close> keeps every event offered, so the
  events a consumer receives are a subsequence of it.
\<close>

definition sendEvent :: "Client \<Rightarrow> Event \<Rightarrow> Client" where
  "sendEvent c event = c\<lparr>eventChan := eventChan c @ [event]\<rparr>"

text \<open>The \<open>pb.LoginRequest\<close> literal of \<open>buildLoginRequest\<close>.\<close>

definition loginRequest :: "Client \<Rightarrow> string \<Rightarrow> LoginRequest" where
  "loginRequest c hexAndroidID =
     \<lparr>AdaptiveHeartbeat = False,
      AuthService = LoginRequest_ANDROID_ID,
      AuthToken = securityToken c,
      Id = ''chrome-63.0.3234.0'',
      Domain = ''mcs.android.com'',
      DeviceId = ''android-'' @ hexAndroidID,
      NetworkType = 1,
      Resource = androidID c,
      User = androidID c,
      UseRmq2 = True,
      Setting = [\<lparr>Name = ''new_vc'', SettingValue = ''1''\<rparr>],
      ClientEvent = [],
      ReceivedPersistentId = persistentIDs c\<rparr>"

text \<open>
  \<open>buildLoginRequest\<close>; \<open>uint32(len(data))\<close> is \<open>word_of_nat (length data)\<close>, which
  keeps the low 32 bits.
\<close>

definition buildLoginRequest :: "protobuf \<Rightarrow> Client \<Rightarrow> err + byte list" where
  "buildLoginRequest pb c =
     (case ParseUint (androidID c) of
        Inl e \<Rightarrow> Inl (Wrap ''invalid android ID'' e)
      | Inr androidIDInt \<Rightarrow>
          (let hexAndroidID = FormatUint16 androidIDInt;
               loginReq = loginRequest c hexAndroidID
           in case Marshal pb (LoginRequestMsg (Some loginReq)) of
                Inl e \<Rightarrow> Inl (Wrap ''failed to marshal login request'' e)
              | Inr bs \<Rightarrow>
                  Inr (MCSVersion # LoginRequestTag
                         # EncodeVarint (word_of_nat (length bs)) @ bs)))"

text \<open>
  What a call does: it returns, or it blocks for ever in \<open>c.mu.Lock()\<close> because the
  caller holds the lock already (a Go mutex is not reentrant), or it panics on a nil
  pointer. The client is given as it is at that point.
\<close>

datatype 'a outcome = Returns 'a | Blocked Client | Panics Client

text \<open>
  \<open>connect\<close>. The result of \<open>tls.DialWithDialer\<close> is the parameter \<open>dial\<close>. The
  function takes the lock on entry and a deferred call releases it on return.
\<close>

definition connect ::
  "protobuf \<Rightarrow> err + Conn \<Rightarrow> Client \<Rightarrow> (err option \<times> Client) outcome" where
  "connect pb dial c =
     (if mu c then Blocked c
      else
        (let c = c\<lparr>mu := True\<rparr>
         in case dial of
              Inl e \<Rightarrow> Returns (Some (Wrap ''failed to connect to MCS'' e), c\<lparr>mu := False\<rparr>)
            | Inr netConn \<Rightarrow>
                (let c = c\<lparr>conn := Some netConn,
                            parser := Some (NewParser (incoming netConn))\<rparr>
                 in case buildLoginRequest pb c of
                      Inl e \<Rightarrow>
                        Returns (Some (Wrap ''failed to build login request'' e),
                                 c\<lparr>conn := Some (Conn_Close netConn), mu := False\<rparr>)
                    | Inr loginBuf \<Rightarrow>
                        (case Conn_Write netConn loginBuf of
                           Inl e \<Rightarrow>
                             Returns (Some (Wrap ''failed to send login request'' e),
                                      c\<lparr>conn := Some (Conn_Close netConn), mu := False\<rparr>)
                         | Inr k \<Rightarrow> Returns (None, c\<lparr>conn := Some k, mu := False\<rparr>)))))"

text \<open>
  \<open>handleDataMessage\<close>. The map \<open>appData\<close> is filled in the order of the list, a later
  entry replacing an earlier one with the same key.
\<close>

definition appDataMap :: "AppData list \<Rightarrow> (string \<rightharpoonup> string)" where
  "appDataMap l = foldl (\<lambda>m d. m(Key d \<mapsto> Value d)) Map.empty l"

definition handleDataMessage :: "Client \<Rightarrow> DataMessageStanza \<Rightarrow> Client" where
  "handleDataMessage c msg =
     (let persistentID = PersistentId msg
      in if persistentID \<in> set (persistentIDs c) then c
         else
           (let c = c\<lparr>persistentIDs := persistentIDs c @ [persistentID]\<rparr>;
                appData = appDataMap (AppData msg);
                fields = \<lparr>d_persistentId = persistentID, d_from = From msg,
                          d_category = Category msg, d_appData = appData,
                          d_rawData = RawData msg\<rparr>
            in if appData ''crypto-key'' \<noteq> None
               then sendEvent c \<lparr>Type = EventNotificationReceived, Data = MessageData fields\<rparr>
               else sendEvent c \<lparr>Type = EventDataReceived, Data = MessageData fields\<rparr>))"

text \<open>\<open>sendHeartbeatAck\<close>: the frame \<open>[tag 1][varint size][body]\<close>.\<close>

definition sendHeartbeatAck :: "protobuf \<Rightarrow> Client \<Rightarrow> Client" where
  "sendHeartbeatAck pb c =
     (case Marshal pb HeartbeatAck of
        Inl e \<Rightarrow> c
      | Inr bs \<Rightarrow>
          (let buf = HeartbeatAckTag # EncodeVarint (word_of_nat (length bs)) @ bs
           in case conn c of
                None \<Rightarrow> c
              | Some k \<Rightarrow>
                  (case Conn_Write k buf of
                     Inl e \<Rightarrow>
                       sendEvent c
                         \<lparr>Type = EventError,
                          Data = ErrorData (Wrap ''failed to send heartbeat ack'' e)\<rparr>
                   | Inr k' \<Rightarrow>
                       sendEvent (c\<lparr>conn := Some k'\<rparr>)
                         \<lparr>Type = EventHeartbeatAck, Data = Timestamp\<rparr>)))"

text \<open>
  \<open>handleMessage\<close>: the \<open>switch\<close> on the tag. In the cases that only write a debug
  line the client is unchanged.
\<close>

definition handleMessage :: "protobuf \<Rightarrow> Client \<Rightarrow> Message \<Rightarrow> Client" where
  "handleMessage pb c msg =
     (if Tag msg = LoginResponseTag then
        sendEvent (c\<lparr>persistentIDs := [], retryCount := 0\<rparr>)
          \<lparr>Type = EventConnect, Data = NoData\<rparr>
      else if Tag msg = DataMessageStanzaTag then
        (case Object msg of
           DataMessageStanzaMsg dataMsg \<Rightarrow> handleDataMessage c dataMsg
         | _ \<Rightarrow> c)
      else if Tag msg = HeartbeatPingTag then
        sendHeartbeatAck pb (sendEvent c \<lparr>Type = EventHeartbeatPing, Data = Timestamp\<rparr>)
      else if Tag msg = HeartbeatAckTag then c
      else if Tag msg = CloseTag then
        sendEvent c \<lparr>Type = EventError, Data = ErrorData ServerClose\<rparr>
      else if Tag msg = IqStanzaTag then c
      else c)"


subsection \<open>The read loop\<close>

text \<open>
  The loop of \<open>listen\<close> ends because every message that \<open>ReadMessage\<close> returns has
  used up part of the stream. \<open>pending\<close> counts what is left: the unread bytes, and
  one more while a frame whose size is known still waits for its body.
\<close>

definition pending :: "Parser \<Rightarrow> nat" where
  "pending p = length (reader p) + (if state p = MCSProtoBytes then 1 else 0)"

lemma readBytes_Inr:
  assumes "readBytes n p = (Inr buf, p')"
  shows "length (reader p') + n = length (reader p)" and "state p' = state p"
    and "messageTag p' = messageTag p" and "messageSize p' = messageSize p"
  using assms by (auto simp: readBytes_def split: if_splits)

lemma readVarint_loop_consumes:
  assumes "readVarint_loop val shift n p = ((v, m, None), p')"
  shows "length (reader p') < length (reader p) \<and> state p' = state p"
  using assms
proof (induction val shift n p rule: readVarint_loop.induct)
  case (1 val shift bytesRead p)
  show ?case
  proof (cases "bytesRead < SizePacketLenMax")
    case False
    with "1.prems" show ?thesis
      by (subst (asm) readVarint_loop.simps) simp
  next
    case True
    show ?thesis
    proof (cases "readBytes 1 p")
      case (Pair r p1)
      show ?thesis
      proof (cases r)
        case (Inl e)
        with "1.prems" True Pair show ?thesis
          by (subst (asm) readVarint_loop.simps) simp
      next
        case (Inr buf)
        note rb = readBytes_Inr [OF Pair [unfolded Inr]]
        show ?thesis
        proof (cases "buf ! 0 AND 0x80 = 0")
          case hb: True
          with "1.prems" True Pair Inr have "p' = p1"
            by (subst (asm) readVarint_loop.simps) (simp add: Let_def)
          with rb show ?thesis by simp
        next
          case hb: False
          from "1.prems" True Pair Inr hb
          have "readVarint_loop (val OR push_bit shift (ucast (buf ! 0 AND 0x7F))) (shift + 7)
                  (bytesRead + 1) p1 = ((v, m, None), p')"
            by (subst (asm) readVarint_loop.simps) (simp add: Let_def)
          from "1.IH" [OF True Pair [unfolded Inr, symmetric] refl refl refl refl hb this] rb
          show ?thesis by simp
        qed
      qed
    qed
  qed
qed


lemma onGotVersion_consumes:
  "onGotVersion p = (None, p') \<Longrightarrow> length (reader p') < length (reader p)"
  by (auto simp: onGotVersion_def readBytes_def VersionPacketLen_def Let_def
           split: prod.splits sum.splits if_splits)

lemma onGotMessageTag_consumes:
  "onGotMessageTag p = (None, p') \<Longrightarrow> length (reader p') < length (reader p)"
  by (auto simp: onGotMessageTag_def readBytes_def TagPacketLen_def
           split: prod.splits sum.splits if_splits)

lemma onGotMessageSize_consumes:
  assumes "onGotMessageSize p = (None, p')"
  shows "length (reader p') < length (reader p)"
proof -
  obtain v m eo p1 where rv: "readVarint p = ((v, m, eo), p1)"
    by (metis prod.exhaust)
  with assms have eo: "eo = None" and p': "reader p' = reader p1"
    by (auto simp: onGotMessageSize_def Let_def split: option.splits if_splits)
  from rv eo readVarint_loop_consumes [of 0 0 0 p v m p1] show ?thesis
    by (simp add: readVarint_def p')
qed

lemma finishMessage_result:
  "finishMessage p m = (r, p') \<Longrightarrow>
     reader p' = reader p \<and> state p' = MCSTagAndSize \<and> (\<exists>msg. r = Inr msg)"
  by (auto simp: finishMessage_def Let_def split: if_splits)

lemma onGotMessageBytes_result:
  assumes "onGotMessageBytes pb p = (Inr msg, p')"
  shows "length (reader p') \<le> length (reader p) \<and> state p' = MCSTagAndSize"
proof (cases "0 < messageSize p")
  case True
  obtain r p1 where rb: "readBytes (unat (messageSize p)) p = (r, p1)"
    by (metis prod.exhaust)
  with assms True obtain buf where r: "r = Inr buf"
    by (cases r) (auto simp: onGotMessageBytes_def)
  from assms True rb r obtain pm where "finishMessage p1 pm = (Inr msg, p')"
    by (auto simp: onGotMessageBytes_def split: sum.splits)
  from finishMessage_result [OF this] readBytes_Inr(1) [OF rb [unfolded r]]
  show ?thesis by simp
next
  case False
  with assms obtain pm where "finishMessage p pm = (Inr msg, p')"
    by (auto simp: onGotMessageBytes_def split: sum.splits)
  from finishMessage_result [OF this] show ?thesis by simp
qed

lemma ReadMessage_progress:
  assumes "ReadMessage pb p = (Inr msg, p')"
  shows "pending p' < pending p \<and> state p' = MCSTagAndSize"
  using assms
proof (induction pb p rule: ReadMessage.induct)
  case (1 pb p)
  consider (v) "state p = MCSVersionTagAndSize" | (t) "state p = MCSTagAndSize"
    | (s) "state p = MCSSize" | (b) "state p = MCSProtoBytes"
    | (o) "state p \<noteq> MCSVersionTagAndSize" "state p \<noteq> MCSTagAndSize"
          "state p \<noteq> MCSSize" "state p \<noteq> MCSProtoBytes"
    by blast
  then show ?case
  proof cases
    case v
    obtain eo p1 where g: "onGotVersion p = (eo, p1)" by (metis prod.exhaust)
    with "1.prems" v have eo: "eo = None" and r: "ReadMessage pb p1 = (Inr msg, p')"
      by (subst (asm) ReadMessage.simps; cases eo; simp)+
    from "1.IH"(1) [OF v g [unfolded eo, symmetric] refl r]
      onGotVersion_consumes [OF g [unfolded eo]] onGotVersion_state [OF g [unfolded eo]]
    show ?thesis using v by (simp add: pending_def state_defs)
  next
    case t
    then have nv: "state p \<noteq> MCSVersionTagAndSize" by (simp add: state_defs)
    obtain eo p1 where g: "onGotMessageTag p = (eo, p1)" by (metis prod.exhaust)
    with "1.prems" t nv have eo: "eo = None" and r: "ReadMessage pb p1 = (Inr msg, p')"
      by (subst (asm) ReadMessage.simps; cases eo; simp)+
    from "1.IH"(2) [OF nv t g [unfolded eo, symmetric] refl r]
      onGotMessageTag_consumes [OF g [unfolded eo]] onGotMessageTag_state [OF g [unfolded eo]]
    show ?thesis using t by (simp add: pending_def state_defs)
  next
    case s
    then have nv: "state p \<noteq> MCSVersionTagAndSize" and nt: "state p \<noteq> MCSTagAndSize"
      by (simp_all add: state_defs)
    obtain eo p1 where g: "onGotMessageSize p = (eo, p1)" by (metis prod.exhaust)
    with "1.prems" s nv nt have eo: "eo = None" and r: "ReadMessage pb p1 = (Inr msg, p')"
      by (subst (asm) ReadMessage.simps; cases eo; simp)+
    from "1.IH"(3) [OF nv nt s g [unfolded eo, symmetric] refl r]
      onGotMessageSize_consumes [OF g [unfolded eo]] onGotMessageSize_state [OF g [unfolded eo]]
    show ?thesis using s by (simp add: pending_def state_defs)
  next
    case b
    then have "ReadMessage pb p = onGotMessageBytes pb p"
      by (subst ReadMessage.simps) (simp add: state_defs)
    with "1.prems" onGotMessageBytes_result [of pb p msg p'] b show ?thesis
      by (simp add: pending_def state_defs)
  next
    case o
    with "1.prems" show ?thesis
      by (subst (asm) ReadMessage.simps) simp
  qed
qed


lemma handleDataMessage_frame:
  "parser (handleDataMessage c d) = parser c" "closed (handleDataMessage c d) = closed c"
  "conn (handleDataMessage c d) = conn c"
  by (simp_all add: handleDataMessage_def sendEvent_def Let_def)

lemma sendHeartbeatAck_frame:
  "parser (sendHeartbeatAck pb c) = parser c" "closed (sendHeartbeatAck pb c) = closed c"
  by (simp_all add: sendHeartbeatAck_def sendEvent_def Let_def split: sum.splits option.splits)

lemma handleMessage_frame:
  "parser (handleMessage pb c msg) = parser c" "closed (handleMessage pb c msg) = closed c"
  by (simp_all add: handleMessage_def sendEvent_def handleDataMessage_frame
        sendHeartbeatAck_frame split: proto.splits)


text \<open>
  The \<open>for\<close> loop of \<open>listen\<close>. It returns when the client has been closed or a read
  has failed; a client without a parser would dereference a nil pointer. The read
  deadline has no part of its own: the stream holds what arrives before a read fails.
  A read error is offered as it is unless it is itself a timeout of the network; the
  errors of \<open>ReadMessage\<close> are wrapped, so they take the second branch.
\<close>

function listen_loop :: "protobuf \<Rightarrow> Client \<Rightarrow> Client outcome" where
  "listen_loop pb c =
     (if closed c then Returns c
      else
        (case parser c of
           None \<Rightarrow> Panics c
         | Some p \<Rightarrow>
             (case ReadMessage pb p of
                (Inl e, p') \<Rightarrow>
                  (let c = c\<lparr>parser := Some p'\<rparr>
                   in if e = NetTimeout
                      then Returns (sendEvent c
                             \<lparr>Type = EventError, Data = ErrorData (Wrap ''read timeout'' e)\<rparr>)
                      else Returns (sendEvent c \<lparr>Type = EventError, Data = ErrorData e\<rparr>))
              | (Inr msg, p') \<Rightarrow> listen_loop pb (handleMessage pb (c\<lparr>parser := Some p'\<rparr>) msg))))"
  by pat_completeness auto
termination
proof (relation "measure (\<lambda>(pb, c). case parser c of None \<Rightarrow> 0 | Some p \<Rightarrow> pending p)",
       goal_cases)
  case 1
  show ?case by simp
next
  case (2 pb c p x p' msg)
  then have "ReadMessage pb p = (Inr msg, p')" by simp
  from ReadMessage_progress [OF this] 2 show ?case
    by (simp add: handleMessage_frame)
qed

declare listen_loop.simps [simp del]


subsection \<open>Reconnecting\<close>

text \<open>
  \<open>retry\<close> takes the lock, keeps it until it returns, and calls \<open>connect\<close> in between.
  It ends by starting a goroutine, \<open>listen\<close> after a successful \<open>connect\<close> and \<open>retry\<close>
  after a failed one; which one is part of the result. \<open>listen\<close> is the loop followed by
  its deferred function, which also runs when the loop panics.
\<close>

datatype spawn = NoSpawn | GoListen | GoRetry

definition retry :: "protobuf \<Rightarrow> err + Conn \<Rightarrow> Client \<Rightarrow> (spawn \<times> Client) outcome" where
  "retry pb dial c =
     (if mu c then Blocked c
      else
        (let c = c\<lparr>mu := True\<rparr>
         in if closed c then Returns (NoSpawn, c\<lparr>mu := False\<rparr>)
            else
              (let c = c\<lparr>retryCount := retryCount c + 1\<rparr>;
                   timeout = retryCount c;
                   timeout = (if timeout > maxRetryTimeout c then maxRetryTimeout c else timeout);
                   c = c\<lparr>slept := slept c @ [timeout]\<rparr>
               in case connect pb dial c of
                    Blocked c' \<Rightarrow> Blocked c'
                  | Panics c' \<Rightarrow> Panics c'
                  | Returns (None, c') \<Rightarrow> Returns (GoListen, c'\<lparr>mu := False\<rparr>)
                  | Returns (Some e, c') \<Rightarrow> Returns (GoRetry, c'\<lparr>mu := False\<rparr>))))"

definition listen :: "protobuf \<Rightarrow> err + Conn \<Rightarrow> Client \<Rightarrow> (spawn \<times> Client) outcome" where
  "listen pb dial c =
     (case listen_loop pb c of
        Returns c1 \<Rightarrow> retry pb dial (sendEvent c1 \<lparr>Type = EventDisconnect, Data = NoData\<rparr>)
      | Panics c1 \<Rightarrow>
          (case retry pb dial (sendEvent c1 \<lparr>Type = EventDisconnect, Data = NoData\<rparr>) of
             Returns (sp, c2) \<Rightarrow> Panics c2
           | Blocked c2 \<Rightarrow> Blocked c2
           | Panics c2 \<Rightarrow> Panics c2)
      | Blocked c1 \<Rightarrow> Blocked c1)"


section \<open>Notions used in the statements\<close>

text \<open>
  The value that the spec's rule gives to a sequence of varint bytes: the low seven
  bits of the byte with index \<open>i\<close>, shifted left by \<open>7 * i\<close>, all of them combined.
\<close>

fun accumulate :: "nat \<Rightarrow> byte list \<Rightarrow> uint32" where
  "accumulate i [] = 0"
| "accumulate i (b # bs) = push_bit (7 * i) (ucast (b AND 0x7F)) OR accumulate (Suc i) bs"

text \<open>The tags that the two switches of the parser know.\<close>

definition knownTags :: "byte set" where
  "knownTags = {HeartbeatPingTag, HeartbeatAckTag, LoginRequestTag, LoginResponseTag,
                CloseTag, IqStanzaTag, DataMessageStanzaTag, StreamErrorStanzaTag}"

text \<open>The reserved tags of the spec: 5, 6, 9 and 11 to 15.\<close>

definition reservedTags :: "byte set" where
  "reservedTags = {MessageStanzaTag, PresenceStanzaTag, BatchPresenceStanzaTag,
                   HttpRequestTag, HttpResponseTag, BindAccountRequestTag,
                   BindAccountResponseTag, TalkMetadataTag}"

text \<open>The default message of a known tag.\<close>

definition emptyOf :: "byte \<Rightarrow> proto" where
  "emptyOf tag =
     (if tag = HeartbeatPingTag then HeartbeatPing
      else if tag = HeartbeatAckTag then HeartbeatAck
      else if tag = LoginRequestTag then LoginRequestMsg None
      else if tag = LoginResponseTag then LoginResponse
      else if tag = CloseTag then Close
      else if tag = IqStanzaTag then IqStanza
      else if tag = DataMessageStanzaTag then DataMessageStanzaMsg emptyDataMessageStanza
      else StreamErrorStanza)"

text \<open>
  An event that carries a data message with persistent ID \<open>p\<close>, and the events of each
  kind in a sequence.
\<close>

definition dataEventFor :: "string \<Rightarrow> Event \<Rightarrow> bool" where
  "dataEventFor p ev =
     ((Type ev = EventDataReceived \<or> Type ev = EventNotificationReceived)
      \<and> (case Data ev of MessageData f \<Rightarrow> d_persistentId f = p | _ \<Rightarrow> False))"

definition isConnect :: "Event \<Rightarrow> bool" where
  "isConnect ev = (Type ev = EventConnect)"

definition isLoginResponse :: "Message \<Rightarrow> bool" where
  "isLoginResponse m = (Tag m = LoginResponseTag)"

text \<open>The read loop hands the messages it reads to \<open>handleMessage\<close>, one after the other.\<close>

definition handleMessages :: "protobuf \<Rightarrow> Client \<Rightarrow> Message list \<Rightarrow> Client" where
  "handleMessages pb c msgs = foldl (handleMessage pb) c msgs"

text \<open>The client and the events of an outcome.\<close>

fun clientOf :: "Client outcome \<Rightarrow> Client" where
  "clientOf (Returns c) = c"
| "clientOf (Blocked c) = c"
| "clientOf (Panics c) = c"

definition eventsOf :: "Client outcome \<Rightarrow> Event list" where
  "eventsOf r = eventChan (clientOf r)"

text \<open>The client of the outcome of \<open>listen\<close> or \<open>retry\<close>, and whether the call blocked.\<close>

fun finalClient :: "(spawn \<times> Client) outcome \<Rightarrow> Client" where
  "finalClient (Returns (sp, c)) = c"
| "finalClient (Blocked c) = c"
| "finalClient (Panics c) = c"

fun isBlocked :: "'a outcome \<Rightarrow> bool" where
  "isBlocked (Blocked c) = True"
| "isBlocked (Returns x) = False"
| "isBlocked (Panics c) = False"

text \<open>
  The error of \<open>ReadMessage\<close> for a frame of size \<open>n\<close> whose tag no switch knows, and
  the number of data events for \<open>p\<close> that have been offered plus the one that may still
  come while \<open>p\<close> is not in the list of persistent IDs.
\<close>

definition frameError :: "uint32 \<Rightarrow> byte \<Rightarrow> err" where
  "frameError n tag =
     Wrap (if n = 0 then ''failed to create empty message'' else ''failed to unmarshal message'')
       (UnknownTag tag)"


definition budget :: "string \<Rightarrow> Client \<Rightarrow> nat" where
  "budget p c = length (filter (dataEventFor p) (eventChan c))
                 + (if p \<in> set (persistentIDs c) then 0 else 1)"

text \<open>
  The part of protobuf that needs no schema: a message without fields is written as no
  bytes, and no bytes are read as the message without fields. This instance knows
  nothing else; it serves to run the model on streams of empty frames.
\<close>

definition pb_defaults :: protobuf where
  "pb_defaults =
     \<lparr>Unmarshal = (\<lambda>bs m. if bs = [] then Inr m else Inl ProtoErr),
      Marshal = (\<lambda>m. case m of
                       LoginRequestMsg (Some r) \<Rightarrow> Inl ProtoErr
                     | DataMessageStanzaMsg d \<Rightarrow>
                         if d = emptyDataMessageStanza then Inr [] else Inl ProtoErr
                     | _ \<Rightarrow> Inr [])\<rparr>"

text \<open>
  A client with \<open>conn\<close> and \<open>parser\<close> as \<open>connect\<close> leaves them, for the bytes that the
  server sends. The bytes written so far play no part in the read loop and are left
  out.
\<close>

definition session :: "byte list \<Rightarrow> Client" where
  "session bs =
     (NewClient ''1'' ''2'' None [])
       \<lparr>conn := Some \<lparr>incoming = bs, written = [], wfail = False, conn_closed = False\<rparr>,
        parser := Some (NewParser bs)\<rparr>"


text \<open>
  Two messages for the examples: a data message with persistent ID \<open>p1\<close> and a
  LoginResponse.
\<close>

definition stanza_p1 :: Message where
  "stanza_p1 =
     \<lparr>Tag = DataMessageStanzaTag,
      Object = DataMessageStanzaMsg
        \<lparr>PersistentId = ''p1'', From = ''sender'', Category = ''app'',
         AppData = [\<lparr>Key = ''k'', Value = ''v''\<rparr>], RawData = []\<rparr>\<rparr>"

definition loginResponse :: Message where
  "loginResponse = \<lparr>Tag = LoginResponseTag, Object = LoginResponse\<rparr>"

section \<open>The varint codec\<close>

subsection \<open>Bytes of a varint\<close>

lemma readBytes_one_Cons:
  "readBytes 1 (p\<lparr>reader := b # rest\<rparr>) = (Inr [b], p\<lparr>reader := rest\<rparr>)"
  by (simp add: readBytes_def)

lemma byte_7F: "(0x7F :: byte) = mask 7"
  by (simp add: mask_eq_exp_minus_1)

lemma bit_int_128: "bit (128 :: int) n \<longleftrightarrow> n = 7"
  using bit_exp_iff [where ?'a = int and m = 7 and n = n] by auto

lemma bit_byte_80: "bit (0x80 :: byte) n \<longleftrightarrow> n = 7"
  by (auto simp add: bit_simps bit_int_128)

lemma low7_of_continued: "((b :: byte) OR 0x80) AND 0x7F = take_bit 7 b"
  unfolding byte_7F
  by (rule bit_word_eqI) (auto simp add: bit_simps bit_int_128)

lemma low7_high_split:
  fixes x :: uint64
  shows "push_bit s (ucast (((ucast x :: byte) OR 0x80) AND 0x7F) :: uint32)
           OR push_bit (s + 7) (ucast (drop_bit 7 x))
         = push_bit s (ucast x)"
proof -
  have e: "(ucast (((ucast x :: byte) OR 0x80) AND 0x7F) :: uint32) = take_bit 7 (ucast x)"
    unfolding low7_of_continued
    by (rule bit_word_eqI) (auto simp add: bit_simps)
  have j: "(take_bit 7 (ucast x) :: uint32) OR push_bit 7 (ucast (drop_bit 7 x)) = ucast x"
    by (rule bit_word_eqI) (auto simp add: bit_simps)
  have "push_bit s (take_bit 7 (ucast x) :: uint32) OR push_bit (s + 7) (ucast (drop_bit 7 x))
          = push_bit s ((take_bit 7 (ucast x) :: uint32) OR push_bit 7 (ucast (drop_bit 7 x)))"
    by (simp add: push_bit_or push_bit_push_bit ac_simps)
  then show ?thesis
    unfolding e j .
qed

lemma high_bit_continued: "((b :: byte) OR 0x80) AND 0x80 \<noteq> 0"
proof
  assume "(b OR 0x80) AND 0x80 = 0"
  then have "bit ((b OR 0x80) AND 0x80) 7 = bit (0 :: byte) 7" by simp
  then show False by (simp add: bit_simps bit_int_128)
qed

lemma small_uint64_bits:
  fixes x :: uint64
  assumes "x < 0x80" and "7 \<le> n"
  shows "\<not> bit x n"
proof -
  from assms(1) have "x < 2 ^ 7" by simp
  then have "x AND mask 7 = x" by (rule less_mask_eq)
  then have "take_bit 7 x = x" by (simp add: take_bit_eq_mask)
  then have "bit x n \<longleftrightarrow> bit (take_bit 7 x) n" by simp
  with assms(2) show ?thesis by (simp add: bit_simps)
qed

lemma small_byte_high:
  fixes x :: uint64
  assumes "x < 0x80"
  shows "(ucast x :: byte) AND 0x80 = 0"
  using small_uint64_bits [OF assms]
  by (intro bit_word_eqI) (auto simp add: bit_simps bit_int_128)

lemma small_byte_low:
  fixes x :: uint64
  assumes "x < 0x80"
  shows "(ucast ((ucast x :: byte) AND 0x7F) :: uint32) = ucast x"
  unfolding byte_7F using small_uint64_bits [OF assms]
  by (intro bit_word_eqI) (auto simp add: bit_simps not_less intro: ccontr)



lemma ucast32_bound: "unat (ucast (v :: uint32) :: uint64) < 2 ^ 32"
proof -
  have "unat (ucast v :: uint64) = take_bit 64 (unat v)"
    by (simp add: unsigned_ucast_eq)
  also have "\<dots> \<le> unat v"
    by (rule take_bit_nat_less_eq_self)
  also have "unat v < 2 ^ 32"
    using unsigned_less [of v, where ?'a = nat] by simp
  finally show ?thesis .
qed

subsection \<open>Decoding what was encoded\<close>

lemma readVarint_loop_PutUvarint:
  assumes "n < 5" and "unat x < 2 ^ (7 * (5 - n))"
  shows "readVarint_loop val (7 * n) n (p\<lparr>reader := PutUvarint x @ rest\<rparr>)
         = ((val OR push_bit (7 * n) (ucast x), n + length (PutUvarint x), None),
            p\<lparr>reader := rest\<rparr>)"
  using assms
proof (induction x arbitrary: val n rule: PutUvarint.induct)
  case (1 x)
  show ?case
  proof (cases "0x80 \<le> x")
    case True
    then have big: "128 \<le> unat x"
      by (simp add: word_le_nat_alt)
    have n4: "n < 4"
    proof (rule ccontr)
      assume "\<not> n < 4"
      with "1.prems"(1) have "n = 4" by simp
      with "1.prems"(2) big show False by simp
    qed
    then have pw: "(2::nat) ^ (7 * (5 - n)) = 128 * 2 ^ (7 * (5 - Suc n))"
    proof -
      from n4 have "7 * (5 - n) = 7 + 7 * (5 - Suc n)" by simp
      then show ?thesis by (simp add: power_add)
    qed
    have small: "unat (drop_bit 7 x) < 2 ^ (7 * (5 - Suc n))"
    proof -
      have "unat x div 128 < 2 ^ (7 * (5 - Suc n))"
        using "1.prems"(2) unfolding pw
        by (intro less_mult_imp_div_less) (simp add: mult.commute)
      then show ?thesis
        by (simp add: unat_drop_bit_eq drop_bit_eq_div unat_div)
    qed
    have enc: "PutUvarint x = (ucast x OR 0x80) # PutUvarint (drop_bit 7 x)"
      using True by (subst PutUvarint.simps) simp
    have ih: "readVarint_loop v (7 * Suc n) (Suc n) (p\<lparr>reader := PutUvarint (drop_bit 7 x) @ rest\<rparr>)
         = ((v OR push_bit (7 * Suc n) (ucast (drop_bit 7 x)),
             Suc n + length (PutUvarint (drop_bit 7 x)), None), p\<lparr>reader := rest\<rparr>)" for v
      using "1.IH" [OF True _ small] n4 by simp
    have sh: "7 * n + 7 = 7 * Suc n" by simp
    show ?thesis
      apply (subst readVarint_loop.simps)
      apply (simp only: enc append_Cons readBytes_one_Cons)
      apply (simp add: SizePacketLenMax_def "1.prems"(1) Let_def high_bit_continued sh ih
                  del: mult_Suc_right)
      using low7_high_split [of "7 * n" x]
      apply (simp add: or.assoc add.commute)
      done
  next
    case False
    then have lt: "x < 0x80" by simp
    have enc: "PutUvarint x = [ucast x]"
      using False by (subst PutUvarint.simps) simp
    show ?thesis
      apply (subst readVarint_loop.simps)
      apply (simp only: enc append_Cons append_Nil readBytes_one_Cons)
      apply (simp add: SizePacketLenMax_def "1.prems"(1) Let_def
                       small_byte_high [OF lt] small_byte_low [OF lt])
      done
  qed
qed


lemma PutUvarint_length:
  assumes "0 < k" and "unat x < 2 ^ (7 * k)"
  shows "length (PutUvarint x) \<le> k"
  using assms
proof (induction x arbitrary: k rule: PutUvarint.induct)
  case (1 x)
  show ?case
  proof (cases "0x80 \<le> x")
    case True
    then have big: "128 \<le> unat x"
      by (simp add: word_le_nat_alt)
    have k2: "1 < k"
    proof (rule ccontr)
      assume "\<not> 1 < k"
      with "1.prems"(1) have "k = 1" by simp
      with "1.prems"(2) big show False by simp
    qed
    then obtain j where k: "k = Suc j" and j: "0 < j"
      by (cases k) auto
    have "unat x div 128 < 2 ^ (7 * j)"
      using "1.prems"(2) unfolding k
      by (intro less_mult_imp_div_less) (simp add: power_add mult.commute)
    then have "unat (drop_bit 7 x) < 2 ^ (7 * j)"
      by (simp add: unat_drop_bit_eq drop_bit_eq_div unat_div)
    from "1.IH" [OF True j this] show ?thesis
      using True by (subst PutUvarint.simps) (simp add: k)
  next
    case False
    then show ?thesis
      using "1.prems"(1) by (subst PutUvarint.simps) simp
  qed
qed

lemma EncodeVarint_length: "length (EncodeVarint v) \<le> 5"
proof -
  have "unat (ucast v :: uint64) < 2 ^ 32"
    by (rule ucast32_bound)
  then have "unat (ucast v :: uint64) < 2 ^ (7 * 5)"
    by simp
  then show ?thesis
    unfolding EncodeVarint_def by (intro PutUvarint_length) simp_all
qed



subsection \<open>What the decoder does on any stream\<close>

lemma accumulate_append:
  "accumulate i (bs @ cs) = accumulate i bs OR accumulate (i + length bs) cs"
  by (induction bs arbitrary: i) (simp_all add: or.assoc)

lemma readBytes_one_Nil:
  "readBytes 1 (p\<lparr>reader := []\<rparr>) = (Inl EOF, p\<lparr>reader := []\<rparr>)"
  by (simp add: readBytes_def)

lemma readVarint_loop_continue:
  assumes "\<forall>b \<in> set bs. b AND 0x80 \<noteq> 0" and "n + length bs \<le> 5"
  shows "readVarint_loop val (7 * n) n (p\<lparr>reader := bs @ r\<rparr>)
         = readVarint_loop (val OR accumulate n bs) (7 * (n + length bs)) (n + length bs)
             (p\<lparr>reader := r\<rparr>)"
  using assms
proof (induction bs arbitrary: val n)
  case Nil
  show ?case by simp
next
  case (Cons b bs)
  from Cons.prems have hb: "b AND 0x80 \<noteq> 0" and n: "n < 5"
    and rest: "\<forall>b \<in> set bs. b AND 0x80 \<noteq> 0" "Suc n + length bs \<le> 5"
    by simp_all
  have step: "readVarint_loop val (7 * n) n (p\<lparr>reader := (b # bs) @ r\<rparr>)
        = readVarint_loop (val OR push_bit (7 * n) (ucast (b AND 0x7F))) (7 * Suc n) (Suc n)
            (p\<lparr>reader := bs @ r\<rparr>)"
    apply (subst readVarint_loop.simps)
    apply (simp only: append_Cons readBytes_one_Cons)
    apply (simp add: SizePacketLenMax_def n hb Let_def add.commute)
    done
  show ?case
    unfolding step Cons.IH [OF rest]
    by (simp add: or.assoc)
qed

lemma readVarint_success:
  assumes "\<forall>b \<in> set bs. b AND 0x80 \<noteq> 0" and "length bs < 5" and "l AND 0x80 = 0"
  shows "readVarint (p\<lparr>reader := bs @ l # rest\<rparr>)
         = ((accumulate 0 (bs @ [l]), length bs + 1, None), p\<lparr>reader := rest\<rparr>)"
proof -
  have "readVarint (p\<lparr>reader := bs @ l # rest\<rparr>)
        = readVarint_loop (accumulate 0 bs) (7 * length bs) (length bs) (p\<lparr>reader := l # rest\<rparr>)"
    unfolding readVarint_def
    using readVarint_loop_continue [OF assms(1), where n = 0 and val = 0 and p = p and r = "l # rest"] assms(2) by simp
  also have "\<dots> = ((accumulate 0 bs OR push_bit (7 * length bs) (ucast (l AND 0x7F)),
                     length bs + 1, None), p\<lparr>reader := rest\<rparr>)"
    apply (subst readVarint_loop.simps)
    apply (simp only: readBytes_one_Cons)
    apply (simp add: SizePacketLenMax_def assms Let_def)
    done
  finally show ?thesis
    by (simp add: accumulate_append)
qed

lemma readVarint_too_long:
  assumes "\<forall>b \<in> set bs. b AND 0x80 \<noteq> 0" and "length bs = 5"
  shows "readVarint (p\<lparr>reader := bs @ rest\<rparr>)
         = ((0, 5, Some VarintTooLong), p\<lparr>reader := rest\<rparr>)"
proof -
  have "readVarint (p\<lparr>reader := bs @ rest\<rparr>)
        = readVarint_loop (accumulate 0 bs) (7 * 5) 5 (p\<lparr>reader := rest\<rparr>)"
    unfolding readVarint_def
    using readVarint_loop_continue [OF assms(1), where n = 0 and val = 0 and p = p and r = rest] assms(2) by simp
  also have "\<dots> = ((0, 5, Some VarintTooLong), p\<lparr>reader := rest\<rparr>)"
    by (subst readVarint_loop.simps) (simp add: SizePacketLenMax_def)
  finally show ?thesis .
qed

lemma readVarint_stream_ends:
  assumes "\<forall>b \<in> set bs. b AND 0x80 \<noteq> 0" and "length bs < 5"
  shows "readVarint (p\<lparr>reader := bs\<rparr>)
         = ((0, length bs, Some EOF), p\<lparr>reader := []\<rparr>)"
proof -
  have "readVarint (p\<lparr>reader := bs @ []\<rparr>)
        = readVarint_loop (accumulate 0 bs) (7 * length bs) (length bs) (p\<lparr>reader := []\<rparr>)"
    unfolding readVarint_def
    using readVarint_loop_continue [OF assms(1), where n = 0 and val = 0 and p = p and r = "[]"] assms(2) by simp
  also have "\<dots> = ((0, length bs, Some EOF), p\<lparr>reader := []\<rparr>)"
    apply (subst readVarint_loop.simps)
    apply (simp only: readBytes_one_Nil)
    apply (simp add: SizePacketLenMax_def assms)
    done
  finally show ?thesis by simp
qed

lemma first_clear_byte_iff:
  fixes r :: "byte list"
  defines "bs \<equiv> takeWhile (\<lambda>b. b AND 0x80 \<noteq> 0) r"
  shows "(\<exists>k<5. k < length r \<and> (\<forall>i<k. r ! i AND 0x80 \<noteq> 0) \<and> r ! k AND 0x80 = 0)
         \<longleftrightarrow> length bs < 5 \<and> length bs < length r"
proof
  assume "\<exists>k<5. k < length r \<and> (\<forall>i<k. r ! i AND 0x80 \<noteq> 0) \<and> r ! k AND 0x80 = 0"
  then obtain k where k: "k < 5" "k < length r" "\<forall>i<k. r ! i AND 0x80 \<noteq> 0"
    "r ! k AND 0x80 = 0"
    by blast
  have le: "k \<le> length bs"
    unfolding bs_def using k(2,3) by (intro length_takeWhile_less_P_nth) simp_all
  have "\<not> k < length bs"
  proof
    assume lt: "k < length bs"
    then have "bs ! k \<in> set bs" by simp
    then have "bs ! k AND 0x80 \<noteq> 0"
      unfolding bs_def by (rule set_takeWhileD [THEN conjunct2])
    moreover have "bs ! k = r ! k"
      using lt unfolding bs_def by (rule takeWhile_nth)
    ultimately show False using k(4) by simp
  qed
  with le have "k = length bs" by simp
  with k(1,2) show "length bs < 5 \<and> length bs < length r" by simp
next
  assume a: "length bs < 5 \<and> length bs < length r"
  have "\<forall>i<length bs. r ! i AND 0x80 \<noteq> 0"
  proof (intro allI impI)
    fix i assume lt: "i < length bs"
    then have "bs ! i \<in> set bs" by simp
    then have "bs ! i AND 0x80 \<noteq> 0"
      unfolding bs_def by (rule set_takeWhileD [THEN conjunct2])
    moreover have "bs ! i = r ! i"
      using lt unfolding bs_def by (rule takeWhile_nth)
    ultimately show "r ! i AND 0x80 \<noteq> 0" by simp
  qed
  moreover have "r ! length bs AND 0x80 = 0"
    using a nth_length_takeWhile [of "\<lambda>b. b AND 0x80 \<noteq> 0" r] unfolding bs_def by simp
  ultimately show "\<exists>k<5. k < length r \<and> (\<forall>i<k. r ! i AND 0x80 \<noteq> 0) \<and> r ! k AND 0x80 = 0"
    using a by blast
qed

lemma readVarint_succeeds_iff:
  "snd (snd (fst (readVarint p))) = None \<longleftrightarrow>
     (\<exists>k<5. k < length (reader p) \<and> (\<forall>i<k. reader p ! i AND 0x80 \<noteq> 0)
        \<and> reader p ! k AND 0x80 = 0)"
proof -
  define bs where "bs = takeWhile (\<lambda>b. b AND 0x80 \<noteq> 0) (reader p)"
  define ds where "ds = dropWhile (\<lambda>b. b AND 0x80 \<noteq> 0) (reader p)"
  have r: "reader p = bs @ ds"
    by (simp add: bs_def ds_def)
  have cont: "\<forall>b \<in> set bs. b AND 0x80 \<noteq> 0"
    unfolding bs_def by (auto dest: set_takeWhileD)
  have p: "p = p\<lparr>reader := reader p\<rparr>" by simp
  have len: "length (reader p) = length bs + length ds"
    by (simp add: r)
  have "snd (snd (fst (readVarint p))) = None \<longleftrightarrow> length bs < 5 \<and> length bs < length (reader p)"
  proof (cases "length bs < 5")
    case False
    have c5: "\<forall>b \<in> set (take 5 bs). b AND 0x80 \<noteq> 0"
      using cont by (auto dest: in_set_takeD)
    have l5: "length (take 5 bs) = 5"
      using False by simp
    have "reader p = take 5 bs @ (drop 5 bs @ ds)"
      by (simp add: r)
    then have "readVarint p = readVarint (p\<lparr>reader := take 5 bs @ (drop 5 bs @ ds)\<rparr>)"
      by (subst p) (simp del: append_assoc)
    with readVarint_too_long [OF c5 l5] False show ?thesis by simp
  next
    case True
    show ?thesis
    proof (cases ds)
      case Nil
      then have "readVarint p = readVarint (p\<lparr>reader := bs\<rparr>)"
        using r by (subst p) simp
      with readVarint_stream_ends [OF cont True] Nil len show ?thesis by simp
    next
      case (Cons l rest)
      have "hd ds AND 0x80 = 0"
        using hd_dropWhile [of "\<lambda>b. b AND 0x80 \<noteq> 0" "reader p"] Cons
        unfolding ds_def by auto
      then have l: "l AND 0x80 = 0" using Cons by simp
      have "readVarint p = readVarint (p\<lparr>reader := bs @ l # rest\<rparr>)"
        using r Cons by (subst p) simp
      with readVarint_success [OF cont True l] True Cons len show ?thesis by simp
    qed
  qed
  then show ?thesis
    using first_clear_byte_iff [of "reader p"] unfolding bs_def by simp
qed


subsection \<open>The library functions on known values\<close>

lemma EncodeVarint_examples:
  "EncodeVarint 0 = [0]"
  "EncodeVarint 127 = [0x7F]"
  "EncodeVarint 300 = [0xAC, 0x02]"
  "EncodeVarint 0xFFFFFFFF = [0xFF, 0xFF, 0xFF, 0xFF, 0x0F]"
  by (simp_all add: EncodeVarint_def PutUvarint.simps)

lemma ParseUint_examples:
  "ParseUint ''18446744073709551615'' = Inr 18446744073709551615"
  "ParseUint ''18446744073709551616'' = Inl ErrRange"
  "ParseUint ''12a'' = Inl ErrSyntax"
  "ParseUint ''-1'' = Inl ErrSyntax"
  "ParseUint [] = Inl ErrSyntax"
  by (simp_all add: ParseUint_def maxUint64_def)

lemma FormatUint16_examples:
  "FormatUint16 0 = ''0''"
  "FormatUint16 255 = ''ff''"
  "FormatUint16 4096 = ''1000''"
  by (simp_all add: FormatUint16.simps hexdigit_def)

subsection \<open>The claims about the varint codec\<close>

lemma readVarint_EncodeVarint:
  "readVarint (p\<lparr>reader := EncodeVarint x @ rest\<rparr>)
   = ((x, length (EncodeVarint x), None), p\<lparr>reader := rest\<rparr>)"
proof -
  have b: "unat (ucast x :: uint64) < 2 ^ (7 * (5 - 0))"
    using ucast32_bound [of x] by simp
  have "(ucast (ucast x :: uint64) :: uint32) = x"
    by (rule bit_word_eqI) (auto simp add: bit_simps)
  with readVarint_loop_PutUvarint [OF _ b, where val = 0 and p = p and rest = rest] show ?thesis
    by (simp add: readVarint_def EncodeVarint_def)
qed

text \<open>
  C5. For every 32-bit value \<open>x\<close>, the parser's varint reader run on the bytes of
  \<open>EncodeVarint x\<close>, whatever follows them in the stream, returns \<open>x\<close> without an
  error, has read exactly the encoded bytes, of which there are at most five, and
  leaves the rest of the stream unread.
\<close>

theorem varint_roundtrip:
  "readVarint (p\<lparr>reader := EncodeVarint x @ rest\<rparr>)
     = ((x, length (EncodeVarint x), None), p\<lparr>reader := rest\<rparr>)
   \<and> length (EncodeVarint x) \<le> 5"
  using readVarint_EncodeVarint [where p = p and x = x and rest = rest]
    EncodeVarint_length [where v = x]
  by simp

text \<open>
  C6. The varint reader takes one byte at a time. Let \<open>bs\<close> be bytes that all have the
  high bit set. If fewer than five of them are followed by a byte \<open>l\<close> with the high
  bit clear, the reader succeeds after \<open>l\<close>: its value combines the low seven bits of
  each byte read, shifted by seven times the index of the byte, and nothing after \<open>l\<close>
  is read. If there are five of them, the reader fails with the error for a varint that
  is too long and has read these five bytes and no more. And on any stream the reader
  succeeds exactly when one of the first five bytes has the high bit clear and all the
  bytes before it have it set.
\<close>

theorem readVarint_stops_at_clear_bit_or_fifth_byte:
  assumes "\<forall>b \<in> set bs. b AND 0x80 \<noteq> 0"
  shows "(length bs < 5 \<and> l AND 0x80 = 0 \<longrightarrow>
            readVarint (p\<lparr>reader := bs @ l # rest\<rparr>)
              = ((accumulate 0 (bs @ [l]), length bs + 1, None), p\<lparr>reader := rest\<rparr>))
       \<and> (length bs = 5 \<longrightarrow>
            readVarint (p\<lparr>reader := bs @ rest\<rparr>)
              = ((0, 5, Some VarintTooLong), p\<lparr>reader := rest\<rparr>))
       \<and> (snd (snd (fst (readVarint q))) = None \<longleftrightarrow>
            (\<exists>k<5. k < length (reader q) \<and> (\<forall>i<k. reader q ! i AND 0x80 \<noteq> 0)
               \<and> reader q ! k AND 0x80 = 0))"
  using readVarint_success [OF assms, where l = l and p = p and rest = rest]
    readVarint_too_long [OF assms, where p = p and rest = rest]
    readVarint_succeeds_iff [where p = q]
  by blast

theorem readVarint_stops_at_clear_bit_or_fifth_byte_witness:
  "readVarint (NewParser [0xAC, 0x02, 0x07]) = ((300, 2, None), NewParser [0x07])
   \<and> readVarint (NewParser [0xFF, 0xFF, 0xFF, 0xFF, 0xFF, 0xFF])
       = ((0, 5, Some VarintTooLong), NewParser [0xFF])
   \<and> snd (snd (fst (readVarint (NewParser [0xAC, 0x02, 0x07])))) = None"
proof -
  have a: "\<forall>b \<in> set [0xAC :: byte]. b AND 0x80 \<noteq> 0"
    by simp
  have b: "\<forall>b \<in> set [0xFF, 0xFF, 0xFF, 0xFF, 0xFF :: byte]. b AND 0x80 \<noteq> 0"
    by simp
  have ex: "\<exists>k<5. k < length (reader (NewParser [0xAC, 0x02, 0x07]))
              \<and> (\<forall>i<k. reader (NewParser [0xAC, 0x02, 0x07]) ! i AND 0x80 \<noteq> 0)
              \<and> reader (NewParser [0xAC, 0x02, 0x07]) ! k AND 0x80 = 0"
    by (rule exI [of _ 1]) (simp add: NewParser_def)
  from readVarint_stops_at_clear_bit_or_fifth_byte
         [OF a, where l = "0x02" and p = "NewParser []" and rest = "[0x07]"
            and q = "NewParser [0xAC, 0x02, 0x07]"]
       readVarint_stops_at_clear_bit_or_fifth_byte
         [OF b, where l = 0 and p = "NewParser []" and rest = "[0xFF]" and q = "NewParser []"]
       ex
  show ?thesis
    by (simp add: NewParser_def)
qed


section \<open>The parser\<close>

text \<open>The definitions that running the model on a given stream unfolds.\<close>

lemmas run_defs =
  session_def NewClient_def NewParser_def pb_defaults_def eventsOf_def
  listen_loop.simps ReadMessage.simps state_defs tag_defs
  onGotVersion_def onGotMessageTag_def onGotMessageSize_def onGotMessageBytes_def
  readBytes_def VersionPacketLen_def TagPacketLen_def MCSVersion_def SizePacketLenMax_def
  readVarint_def readVarint_loop.simps createEmptyMessage_def unmarshalByTag_def
  finishMessage_def handleMessage_def handleDataMessage_def sendHeartbeatAck_def
  sendEvent_def appDataMap_def emptyDataMessageStanza_def Conn_Write_def Let_def


subsection \<open>One frame\<close>

lemma readVarint_EncodeVarint_at:
  assumes "reader q = EncodeVarint x @ rest"
  shows "readVarint q = ((x, length (EncodeVarint x), None), q\<lparr>reader := rest\<rparr>)"
proof -
  have "q = q\<lparr>reader := EncodeVarint x @ rest\<rparr>"
    using assms by simp
  then have "readVarint q = readVarint (q\<lparr>reader := EncodeVarint x @ rest\<rparr>)"
    by simp
  then show ?thesis
    by (simp add: readVarint_EncodeVarint)
qed

lemma ReadMessage_frame:
  assumes "state p = MCSTagAndSize" and "reader p = tag # EncodeVarint n @ body @ rest"
  shows "ReadMessage pb p
         = onGotMessageBytes pb
             (p\<lparr>reader := body @ rest, messageTag := tag, messageSize := n,
                state := MCSProtoBytes\<rparr>)"
proof -
  define p1 where "p1 = p\<lparr>reader := EncodeVarint n @ body @ rest, messageTag := tag,
                          state := MCSSize\<rparr>"
  define p2 where "p2 = p\<lparr>reader := body @ rest, messageTag := tag, messageSize := n,
                          state := MCSProtoBytes\<rparr>"
  have t: "onGotMessageTag p = (None, p1)"
    using assms by (simp add: onGotMessageTag_def readBytes_def TagPacketLen_def p1_def)
  have "reader p1 = EncodeVarint n @ (body @ rest)"
    by (simp add: p1_def)
  from readVarint_EncodeVarint_at [OF this]
  have s: "onGotMessageSize p1 = (None, p2)"
    by (simp add: onGotMessageSize_def Let_def p1_def p2_def)
  have "ReadMessage pb p = ReadMessage pb p1"
    using assms(1) t by (subst ReadMessage.simps) (simp add: state_defs)
  also have "\<dots> = ReadMessage pb p2"
    using s by (subst ReadMessage.simps) (simp add: state_defs p1_def)
  also have "\<dots> = onGotMessageBytes pb p2"
    by (subst ReadMessage.simps) (simp add: state_defs p2_def)
  finally show ?thesis
    by (simp add: p2_def)
qed

lemma createEmptyMessage_known:
  "tag \<in> knownTags \<Longrightarrow> createEmptyMessage tag = Inr (emptyOf tag)"
  by (auto simp: knownTags_def createEmptyMessage_def emptyOf_def tag_defs)

lemma createEmptyMessage_unknown:
  "tag \<notin> knownTags \<Longrightarrow> createEmptyMessage tag = Inl (UnknownTag tag)"
  by (auto simp: knownTags_def createEmptyMessage_def)

lemma unmarshalByTag_known:
  "tag \<in> knownTags \<Longrightarrow> unmarshalByTag pb tag bs = Unmarshal pb bs (emptyOf tag)"
  by (auto simp: knownTags_def unmarshalByTag_def emptyOf_def tag_defs)

lemma unmarshalByTag_unknown:
  "tag \<notin> knownTags \<Longrightarrow> unmarshalByTag pb tag bs = Inl (UnknownTag tag)"
  by (auto simp: knownTags_def unmarshalByTag_def)

lemma reserved_not_known: "reservedTags \<inter> knownTags = {}"
  by (simp add: reservedTags_def knownTags_def tag_defs MessageStanzaTag_def
        PresenceStanzaTag_def BatchPresenceStanzaTag_def HttpRequestTag_def
        HttpResponseTag_def BindAccountRequestTag_def BindAccountResponseTag_def
        TalkMetadataTag_def)

lemma listen_loop_read_error:
  assumes "\<not> closed c" and "parser c = Some p" and "ReadMessage pb p = (Inl e, p')"
    and "e \<noteq> NetTimeout"
  shows "listen_loop pb c
         = Returns (sendEvent (c\<lparr>parser := Some p'\<rparr>) \<lparr>Type = EventError, Data = ErrorData e\<rparr>)"
  using assms by (subst listen_loop.simps) (simp add: Let_def)

lemma listen_loop_message:
  assumes "\<not> closed c" and "parser c = Some p" and "ReadMessage pb p = (Inr msg, p')"
  shows "listen_loop pb c = listen_loop pb (handleMessage pb (c\<lparr>parser := Some p'\<rparr>) msg)"
  using assms by (subst listen_loop.simps) simp


lemma EncodeVarint_0: "EncodeVarint 0 = [0]"
  by (rule EncodeVarint_examples)

text \<open>
  A size of six bytes with the high bit set: the frame \<open>08 FF FF FF FF FF FF\<close> after the
  version byte is the error for a varint that is too long.
\<close>

lemma size_of_six_bytes:
  "fst (ReadMessage pb_defaults (NewParser [41, 8, 0xFF, 0xFF, 0xFF, 0xFF, 0xFF, 0xFF]))
     = Inl (Wrap ''failed to read message size'' VarintTooLong)"
  by (simp add: run_defs)

text \<open>
  C2 (as the code has it). Take a frame: a tag byte, the varint of a size \<open>n\<close> and \<open>n\<close>
  bytes of body. If the tag is one of 0, 1, 2, 3, 4, 7, 8 and 10, \<open>ReadMessage\<close> returns
  a message with that tag: the default message when \<open>n = 0\<close>, and otherwise what
  \<open>proto.Unmarshal\<close> makes of the body, or its error. For every other tag byte
  \<open>ReadMessage\<close> fails with the unknown-tag error, and the read loop offers that error
  as an Error event and returns. The reserved tags 5, 6, 9 and 11 to 15 are among these
  other tags.
\<close>

theorem ReadMessage_by_tag:
  assumes "state p = MCSTagAndSize" and "reader p = tag # EncodeVarint n @ body @ rest"
    and "length body = unat n"
  shows "(tag \<in> knownTags \<and> n = 0 \<longrightarrow>
            fst (ReadMessage pb p) = Inr \<lparr>Tag = tag, Object = emptyOf tag\<rparr>)
       \<and> (tag \<in> knownTags \<and> n \<noteq> 0 \<longrightarrow>
            fst (ReadMessage pb p)
              = (case Unmarshal pb body (emptyOf tag) of
                   Inl e \<Rightarrow> Inl (Wrap ''failed to unmarshal message'' e)
                 | Inr m \<Rightarrow> Inr \<lparr>Tag = tag, Object = m\<rparr>))
       \<and> (tag \<notin> knownTags \<longrightarrow>
            fst (ReadMessage pb p) = Inl (frameError n tag)
            \<and> (\<forall>c. \<not> closed c \<and> parser c = Some p \<longrightarrow>
                  eventsOf (listen_loop pb c)
                    = eventChan c @ [\<lparr>Type = EventError, Data = ErrorData (frameError n tag)\<rparr>]
                  \<and> (\<exists>c'. listen_loop pb c = Returns c')))
       \<and> reservedTags \<inter> knownTags = {}"
proof -
  define p2 where "p2 = p\<lparr>reader := body @ rest, messageTag := tag, messageSize := n,
                          state := MCSProtoBytes\<rparr>"
  have rm: "ReadMessage pb p = onGotMessageBytes pb p2"
    unfolding p2_def by (rule ReadMessage_frame [OF assms(1,2)])
  have pos: "0 < n \<longleftrightarrow> n \<noteq> 0"
    by (simp add: word_greater_zero_iff)
  have rb: "readBytes (unat n) p2 = (Inr body, p2\<lparr>reader := rest\<rparr>)"
    using assms(3) by (simp add: readBytes_def p2_def)
  have k0: "fst (ReadMessage pb p) = Inr \<lparr>Tag = tag, Object = emptyOf tag\<rparr>"
    if "tag \<in> knownTags" "n = 0"
    using that createEmptyMessage_known [of tag]
    by (simp add: rm onGotMessageBytes_def p2_def finishMessage_def Let_def)
  have k1: "fst (ReadMessage pb p)
              = (case Unmarshal pb body (emptyOf tag) of
                   Inl e \<Rightarrow> Inl (Wrap ''failed to unmarshal message'' e)
                 | Inr m \<Rightarrow> Inr \<lparr>Tag = tag, Object = m\<rparr>)"
    if "tag \<in> knownTags" "n \<noteq> 0"
    using that unmarshalByTag_known [of tag pb body] rb
    by (simp add: rm onGotMessageBytes_def pos p2_def finishMessage_def Let_def
             split: sum.splits)
  have u: "\<exists>p'. ReadMessage pb p = (Inl (frameError n tag), p')" if "tag \<notin> knownTags"
    using that unmarshalByTag_unknown [of tag pb body] createEmptyMessage_unknown [of tag] rb
    by (cases "n = 0") (simp_all add: rm onGotMessageBytes_def pos p2_def frameError_def)
  have l: "eventsOf (listen_loop pb c)
             = eventChan c @ [\<lparr>Type = EventError, Data = ErrorData (frameError n tag)\<rparr>]
           \<and> (\<exists>c'. listen_loop pb c = Returns c')"
    if "tag \<notin> knownTags" "\<not> closed c" "parser c = Some p" for c
  proof -
    from u [OF that(1)] obtain p' where "ReadMessage pb p = (Inl (frameError n tag), p')" ..
    from listen_loop_read_error [OF that(2,3) this] show ?thesis
      by (simp add: frameError_def eventsOf_def sendEvent_def)
  qed
  from k0 k1 u l reserved_not_known show ?thesis
    by (metis fst_conv)
qed

theorem ReadMessage_by_tag_witness:
  "fst (ReadMessage pb_defaults ((NewParser [5, 0, 3, 0])\<lparr>state := MCSTagAndSize\<rparr>))
     = Inl (Wrap ''failed to create empty message'' (UnknownTag 5))
   \<and> fst (ReadMessage pb_defaults ((NewParser [3, 0, 5, 0])\<lparr>state := MCSTagAndSize\<rparr>))
     = Inr \<lparr>Tag = 3, Object = LoginResponse\<rparr>"
proof -
  have s: "state ((NewParser bs)\<lparr>state := MCSTagAndSize\<rparr>) = MCSTagAndSize" for bs
    by simp
  have r5: "reader ((NewParser [5, 0, 3, 0])\<lparr>state := MCSTagAndSize\<rparr>)
              = 5 # EncodeVarint 0 @ [] @ [3, 0]"
    by (simp add: NewParser_def EncodeVarint_0)
  have r3: "reader ((NewParser [3, 0, 5, 0])\<lparr>state := MCSTagAndSize\<rparr>)
              = 3 # EncodeVarint 0 @ [] @ [5, 0]"
    by (simp add: NewParser_def EncodeVarint_0)
  have l: "length ([] :: byte list) = unat (0 :: uint32)"
    by simp
  have k5: "(5 :: byte) \<notin> knownTags" and k3: "(3 :: byte) \<in> knownTags"
    by (simp_all add: knownTags_def tag_defs)
  from ReadMessage_by_tag [OF s r5 l, of pb_defaults] ReadMessage_by_tag [OF s r3 l, of pb_defaults]
    k5 k3
  show ?thesis
    by (simp add: frameError_def emptyOf_def tag_defs)
qed

text \<open>
  C2 as stated fails: the frame with the reserved tag 5 and size 0, first on a
  connection, is not decoded; \<open>ReadMessage\<close> returns the unknown-tag error.
\<close>

theorem reserved_tag_is_rejected:
  "fst (ReadMessage pb_defaults (NewParser [41, 5, 0]))
     = Inl (Wrap ''failed to create empty message'' (UnknownTag 5))"
  by (simp add: run_defs)

section \<open>The client\<close>

subsection \<open>Construction and login\<close>

lemma applyOption_persistentIDs [simp]:
  "persistentIDs (applyOption opt c) = persistentIDs c"
  by (cases opt) simp_all

lemma foldl_applyOption_persistentIDs:
  "persistentIDs (foldl (\<lambda>c opt. applyOption opt c) c opts) = persistentIDs c"
  by (induction opts arbitrary: c) simp_all


text \<open>
  C10. \<open>NewClient\<close> called with a nil slice builds the same client as with an empty
  slice, whatever the options: its list of persistent IDs is empty, the
  \<open>received_persistent_id\<close> field of the login request made from it is empty, and
  \<open>buildLoginRequest\<close> gives the same result for both.
\<close>

theorem NewClient_nil_persistentIDs:
  "NewClient aid token None opts = NewClient aid token (Some []) opts
   \<and> persistentIDs (NewClient aid token None opts) = []
   \<and> ReceivedPersistentId (loginRequest (NewClient aid token None opts) hex) = []
   \<and> buildLoginRequest pb (NewClient aid token None opts)
       = buildLoginRequest pb (NewClient aid token (Some []) opts)"
  by (simp add: NewClient_def loginRequest_def foldl_applyOption_persistentIDs)

lemma sendHeartbeatAck_written:
  assumes "conn c = Some k"
  shows "\<exists>k'. conn (sendHeartbeatAck pb c) = Some k' \<and> prefix (written k) (written k')"
  using assms
  by (auto simp: sendHeartbeatAck_def sendEvent_def Conn_Write_def Let_def
           split: sum.splits if_splits)

lemma handleMessage_written:
  assumes "conn c = Some k"
  shows "\<exists>k'. conn (handleMessage pb c m) = Some k' \<and> prefix (written k) (written k')"
proof -
  have "conn (sendEvent c \<lparr>Type = EventHeartbeatPing, Data = Timestamp\<rparr>) = Some k"
    using assms by (simp add: sendEvent_def)
  from sendHeartbeatAck_written [OF this] assms show ?thesis
    by (auto simp: handleMessage_def sendEvent_def handleDataMessage_frame split: proto.splits)
qed

lemma listen_loop_written:
  assumes "conn c = Some k"
  shows "\<exists>k'. conn (clientOf (listen_loop pb c)) = Some k' \<and> prefix (written k) (written k')"
  using assms
proof (induction pb c arbitrary: k rule: listen_loop.induct)
  case (1 pb c)
  show ?case
  proof (cases "closed c")
    case True
    with "1.prems" show ?thesis
      by (subst listen_loop.simps) simp
  next
    case nc: False
    show ?thesis
    proof (cases "parser c")
      case None
      with nc "1.prems" show ?thesis
        by (subst listen_loop.simps) simp
    next
      case (Some p)
      obtain r p' where rm: "ReadMessage pb p = (r, p')"
        by (metis prod.exhaust)
      show ?thesis
      proof (cases r)
        case (Inl e)
        with nc Some rm "1.prems" show ?thesis
          by (subst listen_loop.simps) (simp add: sendEvent_def Let_def)
      next
        case (Inr msg)
        have "conn (c\<lparr>parser := Some p'\<rparr>) = Some k"
          using "1.prems" by simp
        from handleMessage_written [OF this, of pb msg]
        obtain k1 where k1: "conn (handleMessage pb (c\<lparr>parser := Some p'\<rparr>) msg) = Some k1"
          and p1: "prefix (written k) (written k1)"
          by blast
        from "1.IH" [OF nc Some rm [unfolded Inr, symmetric] refl k1]
        obtain k' where "conn (clientOf (listen_loop pb (handleMessage pb (c\<lparr>parser := Some p'\<rparr>) msg))) = Some k'"
          and "prefix (written k1) (written k')"
          by blast
        with p1 nc Some rm Inr show ?thesis
          by (subst listen_loop.simps) (auto intro: prefix_order.trans)
      qed
    qed
  qed
qed


text \<open>
  C7. Let the android ID be numeric (\<open>ParseUint\<close> accepts it), let \<open>proto.Marshal\<close>
  give the bytes \<open>bs\<close> for the login request, and let the dial give a fresh connection
  on which writes succeed. Then \<open>connect\<close> returns without error and the bytes written
  to the connection are exactly 41, 2, the varint of the length of \<open>bs\<close>, and \<open>bs\<close>. The
  length enters the varint as \<open>uint32(len(data))\<close>, which is the length itself below
  \<open>2 ^ 32\<close>. Whatever the read loop writes later comes after these bytes.
\<close>

theorem first_frame_written:
  assumes "\<not> mu c"
    and "ParseUint (androidID c) = Inr a"
    and "Marshal pb (LoginRequestMsg (Some (loginRequest c (FormatUint16 a)))) = Inr bs"
    and "written k = []" and "\<not> wfail k" and "\<not> conn_closed k"
  shows "\<exists>c' k'. connect pb (Inr k) c = Returns (None, c') \<and> conn c' = Some k'
           \<and> written k' = [41, 2] @ EncodeVarint (word_of_nat (length bs)) @ bs
           \<and> (length bs < 2 ^ 32 \<longrightarrow> unat (word_of_nat (length bs) :: uint32) = length bs)
           \<and> (\<exists>k''. conn (clientOf (listen_loop pb c')) = Some k''
                  \<and> prefix ([41, 2] @ EncodeVarint (word_of_nat (length bs)) @ bs) (written k''))"
proof -
  define frame where "frame = [41, 2] @ EncodeVarint (word_of_nat (length bs)) @ bs"
  define c' where "c' = c\<lparr>mu := False, conn := Some (k\<lparr>written := frame\<rparr>),
                          parser := Some (NewParser (incoming k))\<rparr>"
  have lr: "loginRequest (c\<lparr>mu := True, conn := Some k, parser := Some (NewParser (incoming k))\<rparr>) h
            = loginRequest c h" for h
    by (simp add: loginRequest_def)
  have "connect pb (Inr k) c = Returns (None, c')"
    using assms
    by (simp add: connect_def buildLoginRequest_def Let_def lr Conn_Write_def c'_def frame_def
          MCSVersion_def LoginRequestTag_def)
  moreover have ck: "conn c' = Some (k\<lparr>written := frame\<rparr>)"
    by (simp add: c'_def)
  moreover have "length bs < 2 ^ 32 \<longrightarrow> unat (word_of_nat (length bs) :: uint32) = length bs"
    by (simp add: unat_of_nat take_bit_nat_eq_self)
  moreover from listen_loop_written [OF ck, of pb]
  have "\<exists>k''. conn (clientOf (listen_loop pb c')) = Some k'' \<and> prefix frame (written k'')"
    by simp
  ultimately show ?thesis
    unfolding frame_def by auto
qed


theorem first_frame_written_witness:
  "ParseUint (androidID (NewClient ''1'' ''2'' None [])) = Inr 1
   \<and> (\<exists>c' k'. connect (pb_defaults\<lparr>Marshal := \<lambda>m. Inr [10, 1, 49]\<rparr>)
                 (Inr \<lparr>incoming = [41, 3, 0], written = [], wfail = False, conn_closed = False\<rparr>)
                 (NewClient ''1'' ''2'' None []) = Returns (None, c')
          \<and> conn c' = Some k' \<and> written k' = [41, 2, 3, 10, 1, 49])"
proof -
  let ?c = "NewClient ''1'' ''2'' None []"
  let ?pb = "pb_defaults\<lparr>Marshal := \<lambda>m. Inr [10, 1, 49]\<rparr>"
  let ?k = "\<lparr>incoming = [41, 3, 0], written = [], wfail = False, conn_closed = False\<rparr>"
  have m: "\<not> mu ?c"
    by (simp add: NewClient_def)
  have a: "ParseUint (androidID ?c) = Inr 1"
    by (simp add: NewClient_def ParseUint_def maxUint64_def)
  have b: "Marshal ?pb (LoginRequestMsg (Some (loginRequest ?c (FormatUint16 1)))) = Inr [10, 1, 49]"
    by simp
  have w: "written ?k = []" "\<not> wfail ?k" "\<not> conn_closed ?k"
    by simp_all
  have e: "EncodeVarint (word_of_nat (length [10, 1, 49 :: byte])) = [3]"
    by (simp add: EncodeVarint_def PutUvarint.simps)
  from first_frame_written [OF m a b w] a show ?thesis
    unfolding e by auto
qed

subsection \<open>Events of a message\<close>

lemma sendHeartbeatAck_events:
  "\<exists>evs. eventChan (sendHeartbeatAck pb c) = eventChan c @ evs
         \<and> (\<forall>ev \<in> set evs. Type ev = EventError \<or> Type ev = EventHeartbeatAck)
         \<and> persistentIDs (sendHeartbeatAck pb c) = persistentIDs c"
  by (auto simp: sendHeartbeatAck_def sendEvent_def Let_def split: sum.splits option.splits)

lemma handleMessage_other_events:
  assumes "Tag m \<noteq> LoginResponseTag" and "Tag m \<noteq> DataMessageStanzaTag"
  shows "\<exists>evs. eventChan (handleMessage pb c m) = eventChan c @ evs
         \<and> (\<forall>ev \<in> set evs. Type ev = EventError \<or> Type ev = EventHeartbeatAck
                \<or> Type ev = EventHeartbeatPing)
         \<and> persistentIDs (handleMessage pb c m) = persistentIDs c"
proof -
  obtain evs where
    "eventChan (sendHeartbeatAck pb (sendEvent c \<lparr>Type = EventHeartbeatPing, Data = Timestamp\<rparr>))
       = eventChan (sendEvent c \<lparr>Type = EventHeartbeatPing, Data = Timestamp\<rparr>) @ evs"
    "\<forall>ev \<in> set evs. Type ev = EventError \<or> Type ev = EventHeartbeatAck"
    "persistentIDs (sendHeartbeatAck pb (sendEvent c \<lparr>Type = EventHeartbeatPing, Data = Timestamp\<rparr>))
       = persistentIDs (sendEvent c \<lparr>Type = EventHeartbeatPing, Data = Timestamp\<rparr>)"
    using sendHeartbeatAck_events by blast
  then have hb: "\<exists>evs. eventChan (sendHeartbeatAck pb (sendEvent c \<lparr>Type = EventHeartbeatPing, Data = Timestamp\<rparr>))
       = eventChan c @ evs
       \<and> (\<forall>ev \<in> set evs. Type ev = EventError \<or> Type ev = EventHeartbeatAck
                \<or> Type ev = EventHeartbeatPing)
       \<and> persistentIDs (sendHeartbeatAck pb (sendEvent c \<lparr>Type = EventHeartbeatPing, Data = Timestamp\<rparr>))
           = persistentIDs c"
    by (intro exI [of _ "\<lparr>Type = EventHeartbeatPing, Data = Timestamp\<rparr> # evs"])
       (auto simp: sendEvent_def)
  have cl: "\<exists>evs. eventChan (sendEvent c \<lparr>Type = EventError, Data = ErrorData ServerClose\<rparr>)
       = eventChan c @ evs
       \<and> (\<forall>ev \<in> set evs. Type ev = EventError \<or> Type ev = EventHeartbeatAck
                \<or> Type ev = EventHeartbeatPing)
       \<and> persistentIDs (sendEvent c \<lparr>Type = EventError, Data = ErrorData ServerClose\<rparr>)
           = persistentIDs c"
    by (intro exI [of _ "[\<lparr>Type = EventError, Data = ErrorData ServerClose\<rparr>]"])
       (simp add: sendEvent_def)
  have nothing: "\<exists>evs. eventChan c = eventChan c @ evs
       \<and> (\<forall>ev \<in> set evs. Type ev = EventError \<or> Type ev = EventHeartbeatAck
                \<or> Type ev = EventHeartbeatPing)
       \<and> persistentIDs c = persistentIDs c"
    by (intro exI [of _ "[]"]) simp
  show ?thesis
    using assms hb cl nothing unfolding handleMessage_def by simp
qed

lemma handleMessage_other_quiet:
  assumes "Tag m \<noteq> LoginResponseTag" and "Tag m \<noteq> DataMessageStanzaTag"
  shows "\<exists>evs. eventChan (handleMessage pb c m) = eventChan c @ evs
         \<and> filter isConnect evs = [] \<and> (\<forall>p. filter (dataEventFor p) evs = [])
         \<and> persistentIDs (handleMessage pb c m) = persistentIDs c"
proof -
  from handleMessage_other_events [OF assms, of pb c]
  obtain evs where e: "eventChan (handleMessage pb c m) = eventChan c @ evs"
    and t: "\<forall>ev \<in> set evs. Type ev = EventError \<or> Type ev = EventHeartbeatAck
                \<or> Type ev = EventHeartbeatPing"
    and i: "persistentIDs (handleMessage pb c m) = persistentIDs c"
    by blast
  have "filter isConnect evs = []"
    unfolding filter_empty_conv isConnect_def using t by force
  moreover have "filter (dataEventFor p) evs = []" for p
    unfolding filter_empty_conv dataEventFor_def using t by force
  ultimately show ?thesis
    using e i by blast
qed

lemma handleDataMessage_cases:
  "(PersistentId d \<in> set (persistentIDs c) \<and> handleDataMessage c d = c)
   \<or> (PersistentId d \<notin> set (persistentIDs c)
       \<and> (\<exists>ev. eventChan (handleDataMessage c d) = eventChan c @ [ev]
              \<and> (Type ev = EventDataReceived \<or> Type ev = EventNotificationReceived)
              \<and> dataEventFor (PersistentId d) ev
              \<and> (\<forall>q. q \<noteq> PersistentId d \<longrightarrow> \<not> dataEventFor q ev))
       \<and> persistentIDs (handleDataMessage c d) = persistentIDs c @ [PersistentId d])"
  by (auto simp: handleDataMessage_def sendEvent_def Let_def dataEventFor_def)

lemma handleMessage_connects:
  "length (filter isConnect (eventChan (handleMessage pb c m)))
   = length (filter isConnect (eventChan c)) + (if isLoginResponse m then 1 else 0)"
proof (cases "Tag m = LoginResponseTag")
  case True
  then show ?thesis
    by (simp add: handleMessage_def sendEvent_def isConnect_def isLoginResponse_def)
next
  case nl: False
  show ?thesis
  proof (cases "Tag m = DataMessageStanzaTag")
    case True
    have "length (filter isConnect (eventChan (handleDataMessage c d)))
          = length (filter isConnect (eventChan c))" for d
      using handleDataMessage_cases [of d c] by (auto simp: isConnect_def)
    with nl True show ?thesis
      by (simp add: handleMessage_def isLoginResponse_def split: proto.splits)
  next
    case False
    from handleMessage_other_quiet [OF nl False, of pb c] nl show ?thesis
      by (auto simp: isLoginResponse_def)
  qed
qed


text \<open>
  C8 (as the code has it). Every LoginResponse that is handled offers one Connect
  event, the first one on a connection and each later one alike, and no other message
  offers a Connect event: after a sequence of messages the number of Connect events
  has grown by the number of LoginResponse messages in the sequence.
\<close>

theorem connect_per_LoginResponse:
  "length (filter isConnect (eventChan (handleMessages pb c msgs)))
   = length (filter isConnect (eventChan c)) + length (filter isLoginResponse msgs)"
  unfolding handleMessages_def
  by (induction msgs arbitrary: c) (simp_all add: handleMessage_connects)

text \<open>
  C8 as stated fails: two LoginResponse frames on one connection give two Connect
  events.
\<close>

theorem second_LoginResponse_connects_again:
  "eventsOf (listen_loop pb_defaults (session [41, 3, 0, 3, 0]))
     = [\<lparr>Type = EventConnect, Data = NoData\<rparr>,
        \<lparr>Type = EventConnect, Data = NoData\<rparr>,
        \<lparr>Type = EventError, Data = ErrorData (Wrap ''failed to read message tag'' EOF)\<rparr>]"
  by (simp add: run_defs)

lemma handleMessage_budget:
  assumes "Tag m \<noteq> LoginResponseTag"
  shows "budget p (handleMessage pb c m) \<le> budget p c"
proof (cases "Tag m = DataMessageStanzaTag")
  case True
  have "budget p (handleDataMessage c d) \<le> budget p c" for d
    using handleDataMessage_cases [of d c] unfolding budget_def
    by (cases "p = PersistentId d") auto
  with assms True show ?thesis
    by (simp add: handleMessage_def split: proto.splits)
next
  case False
  from handleMessage_other_quiet [OF assms False, of pb c] show ?thesis
    unfolding budget_def by auto
qed

lemma handleMessages_budget:
  assumes "\<forall>m \<in> set msgs. Tag m \<noteq> LoginResponseTag"
  shows "budget p (handleMessages pb c msgs) \<le> budget p c"
  using assms unfolding handleMessages_def
proof (induction msgs arbitrary: c)
  case Nil
  show ?case by simp
next
  case (Cons m msgs)
  have "budget p (foldl (handleMessage pb) (handleMessage pb c m) msgs)
        \<le> budget p (handleMessage pb c m)"
    using Cons.prems by (intro Cons.IH) simp
  also have "\<dots> \<le> budget p c"
    using Cons.prems by (intro handleMessage_budget) simp
  finally show ?case by simp
qed


text \<open>
  C1 (as the code has it). The list of persistent IDs is emptied by every
  LoginResponse. Among messages handled without a LoginResponse in between, at most one
  DataReceived or NotificationReceived event carries a given persistent ID \<open>p\<close>, and
  none if \<open>p\<close> is in the list already; a data message whose ID is in the list leaves the
  client as it is.
\<close>

theorem one_data_event_between_LoginResponses:
  assumes "\<forall>m \<in> set msgs. Tag m \<noteq> LoginResponseTag"
  shows "length (filter (dataEventFor p) (eventChan (handleMessages pb c msgs)))
           \<le> length (filter (dataEventFor p) (eventChan c))
               + (if p \<in> set (persistentIDs c) then 0 else 1)
       \<and> (PersistentId d \<in> set (persistentIDs c) \<longrightarrow>
            handleMessage pb c \<lparr>Tag = DataMessageStanzaTag, Object = DataMessageStanzaMsg d\<rparr> = c)
       \<and> persistentIDs (handleMessage pb c \<lparr>Tag = LoginResponseTag, Object = LoginResponse\<rparr>) = []"
proof -
  have "length (filter (dataEventFor p) (eventChan (handleMessages pb c msgs)))
          \<le> budget p (handleMessages pb c msgs)"
    by (simp add: budget_def)
  also note handleMessages_budget [OF assms, of p pb c]
  finally have "length (filter (dataEventFor p) (eventChan (handleMessages pb c msgs)))
           \<le> length (filter (dataEventFor p) (eventChan c))
               + (if p \<in> set (persistentIDs c) then 0 else 1)"
    by (simp add: budget_def)
  then show ?thesis
    by (simp add: handleMessage_def handleDataMessage_def sendEvent_def tag_defs)
qed

theorem one_data_event_between_LoginResponses_witness:
  "Tag stanza_p1 \<noteq> LoginResponseTag
   \<and> length (filter (dataEventFor ''p1'')
        (eventChan (handleMessages pb_defaults (NewClient ''1'' ''2'' None [])
           [stanza_p1, stanza_p1]))) \<le> 1"
proof -
  have h: "\<forall>m \<in> set [stanza_p1, stanza_p1]. Tag m \<noteq> LoginResponseTag"
    by (simp add: stanza_p1_def tag_defs)
  have e: "eventChan (NewClient ''1'' ''2'' None []) = []"
    and i: "persistentIDs (NewClient ''1'' ''2'' None []) = []"
    by (simp_all add: NewClient_def)
  from one_data_event_between_LoginResponses
         [OF h, of "''p1''" pb_defaults "NewClient ''1'' ''2'' None []"] h e i
  show ?thesis by simp
qed

text \<open>
  C1 as stated fails: a data message with persistent ID \<open>p1\<close>, a LoginResponse, and
  the same data message again give two data events for \<open>p1\<close>. Four events fit the
  channel, which holds a hundred, so none of them is dropped.
\<close>

theorem same_persistentId_emitted_twice:
  "length (filter (dataEventFor ''p1'')
     (eventChan (handleMessages pb_defaults (NewClient ''1'' ''2'' None [])
        [loginResponse, stanza_p1, loginResponse, stanza_p1]))) = 2"
  by (simp add: handleMessages_def stanza_p1_def loginResponse_def dataEventFor_def run_defs)

subsection \<open>The read loop and its end\<close>

lemma retry_eventChan:
  "eventChan (finalClient (retry pb dial c)) = eventChan c"
  by (auto simp: retry_def connect_def Let_def buildLoginRequest_def
           split: sum.splits option.splits if_splits)

lemma listen_loop_not_Blocked: "listen_loop pb c \<noteq> Blocked c'"
proof (induction pb c rule: listen_loop.induct)
  case (1 pb c)
  show ?case
  proof (cases "closed c")
    case True
    then show ?thesis by (subst listen_loop.simps) simp
  next
    case nc: False
    show ?thesis
    proof (cases "parser c")
      case None
      with nc show ?thesis by (subst listen_loop.simps) simp
    next
      case (Some p)
      obtain r p' where rm: "ReadMessage pb p = (r, p')"
        by (metis prod.exhaust)
      show ?thesis
      proof (cases r)
        case (Inl e)
        with nc Some rm show ?thesis
          by (subst listen_loop.simps) (simp add: Let_def)
      next
        case (Inr msg)
        from "1.IH" [OF nc Some rm [unfolded Inr, symmetric] refl] nc Some rm Inr
        show ?thesis
          by (subst listen_loop.simps) simp
      qed
    qed
  qed
qed

lemma listen_events:
  "eventChan (finalClient (listen pb dial c))
   = eventsOf (listen_loop pb c) @ [\<lparr>Type = EventDisconnect, Data = NoData\<rparr>]"
proof (cases "listen_loop pb c")
  case (Returns c1)
  with retry_eventChan [of pb dial "sendEvent c1 \<lparr>Type = EventDisconnect, Data = NoData\<rparr>"]
  show ?thesis
    by (simp add: listen_def eventsOf_def sendEvent_def)
next
  case (Blocked c1)
  with listen_loop_not_Blocked show ?thesis by blast
next
  case (Panics c1)
  obtain res where res: "retry pb dial (sendEvent c1 \<lparr>Type = EventDisconnect, Data = NoData\<rparr>) = res"
    by simp
  with retry_eventChan [of pb dial "sendEvent c1 \<lparr>Type = EventDisconnect, Data = NoData\<rparr>"]
  have "eventChan (finalClient res) = eventChan c1 @ [\<lparr>Type = EventDisconnect, Data = NoData\<rparr>]"
    by (simp add: sendEvent_def)
  with Panics res show ?thesis
    by (cases res) (auto simp: listen_def eventsOf_def)
qed

text \<open>
  C3 (as the code has it). A message with tag 10 (StreamErrorStanza) falls to the
  default case of \<open>handleMessage\<close>: the client is left as it is, no event is offered,
  and the read loop goes on with the next frame.
\<close>

theorem StreamErrorStanza_is_ignored:
  assumes "\<not> closed c" and "parser c = Some p" and "ReadMessage pb p = (Inr msg, p')"
    and "Tag msg = StreamErrorStanzaTag"
  shows "handleMessage pb (c\<lparr>parser := Some p'\<rparr>) msg = c\<lparr>parser := Some p'\<rparr>
       \<and> listen_loop pb c = listen_loop pb (c\<lparr>parser := Some p'\<rparr>)"
proof -
  have "handleMessage pb (c\<lparr>parser := Some p'\<rparr>) msg = c\<lparr>parser := Some p'\<rparr>"
    using assms(4) by (simp add: handleMessage_def tag_defs)
  with listen_loop_message [OF assms(1,2,3)] show ?thesis
    by simp
qed

theorem StreamErrorStanza_is_ignored_witness:
  "\<not> closed (session [41, 10, 0, 3, 0])
   \<and> listen_loop pb_defaults (session [41, 10, 0, 3, 0])
       = listen_loop pb_defaults
           ((session [41, 10, 0, 3, 0])
              \<lparr>parser := Some ((NewParser [3, 0])\<lparr>state := MCSTagAndSize\<rparr>)\<rparr>)"
proof -
  have a: "\<not> closed (session [41, 10, 0, 3, 0])"
    and b: "parser (session [41, 10, 0, 3, 0]) = Some (NewParser [41, 10, 0, 3, 0])"
    by (simp_all add: session_def NewClient_def)
  have r: "ReadMessage pb_defaults (NewParser [41, 10, 0, 3, 0])
           = (Inr \<lparr>Tag = 10, Object = StreamErrorStanza\<rparr>,
              (NewParser [3, 0])\<lparr>state := MCSTagAndSize\<rparr>)"
    by (simp add: run_defs)
  have t: "Tag \<lparr>Tag = 10, Object = StreamErrorStanza\<rparr> = StreamErrorStanzaTag"
    by (simp add: tag_defs)
  from StreamErrorStanza_is_ignored [OF a b r t] a show ?thesis
    by simp
qed

text \<open>
  C3 as stated fails: after the StreamErrorStanza frame the loop reads the LoginResponse
  that follows and offers Connect; the only Error event is the one for the end of the
  stream.
\<close>

theorem StreamErrorStanza_passes_silently:
  "eventsOf (listen_loop pb_defaults (session [41, 10, 0, 3, 0]))
     = [\<lparr>Type = EventConnect, Data = NoData\<rparr>,
        \<lparr>Type = EventError, Data = ErrorData (Wrap ''failed to read message tag'' EOF)\<rparr>]"
  by (simp add: run_defs)

text \<open>
  C4 (as the code has it). A message with tag 4 (Close) makes the client offer one
  Error event with the server-close reason and nothing more: the read loop goes on
  with the next frame of the same connection. Disconnect is offered when the loop has
  ended, after all the events of the loop.
\<close>

theorem Close_is_reported_and_reading_goes_on:
  assumes "\<not> closed c" and "parser c = Some p" and "ReadMessage pb p = (Inr msg, p')"
    and "Tag msg = CloseTag"
  shows "handleMessage pb (c\<lparr>parser := Some p'\<rparr>) msg
           = sendEvent (c\<lparr>parser := Some p'\<rparr>) \<lparr>Type = EventError, Data = ErrorData ServerClose\<rparr>
       \<and> listen_loop pb c
           = listen_loop pb
               (sendEvent (c\<lparr>parser := Some p'\<rparr>) \<lparr>Type = EventError, Data = ErrorData ServerClose\<rparr>)
       \<and> eventChan (finalClient (listen pb dial c))
           = eventsOf (listen_loop pb c) @ [\<lparr>Type = EventDisconnect, Data = NoData\<rparr>]"
proof -
  have h: "handleMessage pb (c\<lparr>parser := Some p'\<rparr>) msg
           = sendEvent (c\<lparr>parser := Some p'\<rparr>) \<lparr>Type = EventError, Data = ErrorData ServerClose\<rparr>"
    using assms(4) by (simp add: handleMessage_def tag_defs)
  with listen_loop_message [OF assms(1,2,3)] listen_events [of pb dial c] show ?thesis
    by simp
qed

theorem Close_is_reported_and_reading_goes_on_witness:
  "\<not> closed (session [41, 4, 0, 3, 0])
   \<and> listen_loop pb_defaults (session [41, 4, 0, 3, 0])
       = listen_loop pb_defaults
           (sendEvent ((session [41, 4, 0, 3, 0])
              \<lparr>parser := Some ((NewParser [3, 0])\<lparr>state := MCSTagAndSize\<rparr>)\<rparr>)
              \<lparr>Type = EventError, Data = ErrorData ServerClose\<rparr>)
   \<and> eventChan (finalClient (listen pb_defaults (Inl DialErr) (session [41, 4, 0, 3, 0])))
       = eventsOf (listen_loop pb_defaults (session [41, 4, 0, 3, 0]))
           @ [\<lparr>Type = EventDisconnect, Data = NoData\<rparr>]"
proof -
  have a: "\<not> closed (session [41, 4, 0, 3, 0])"
    and b: "parser (session [41, 4, 0, 3, 0]) = Some (NewParser [41, 4, 0, 3, 0])"
    by (simp_all add: session_def NewClient_def)
  have r: "ReadMessage pb_defaults (NewParser [41, 4, 0, 3, 0])
           = (Inr \<lparr>Tag = 4, Object = Close\<rparr>, (NewParser [3, 0])\<lparr>state := MCSTagAndSize\<rparr>)"
    by (simp add: run_defs)
  have t: "Tag \<lparr>Tag = 4, Object = Close\<rparr> = CloseTag"
    by (simp add: tag_defs)
  from Close_is_reported_and_reading_goes_on [OF a b r t, of "Inl DialErr"] a show ?thesis
    by simp
qed

text \<open>
  C4 as stated fails: after the Close frame the loop reads the LoginResponse that
  follows and offers Connect.
\<close>

theorem frames_after_Close_are_read:
  "eventsOf (listen_loop pb_defaults (session [41, 4, 0, 3, 0]))
     = [\<lparr>Type = EventError, Data = ErrorData ServerClose\<rparr>,
        \<lparr>Type = EventConnect, Data = NoData\<rparr>,
        \<lparr>Type = EventError, Data = ErrorData (Wrap ''failed to read message tag'' EOF)\<rparr>]"
  by (simp add: run_defs)

subsection \<open>Reconnecting\<close>

lemma retry_blocks:
  assumes "\<not> mu c" and "\<not> closed c"
  shows "retry pb dial c
         = Blocked (c\<lparr>mu := True, retryCount := retryCount c + 1,
                      slept := slept c @ [min (retryCount c + 1) (maxRetryTimeout c)]\<rparr>)"
  using assms by (simp add: retry_def connect_def Let_def min_def)

lemma handleMessage_LoginResponse_resets:
  "Tag msg = LoginResponseTag \<Longrightarrow> retryCount (handleMessage pb c msg) = 0"
  by (simp add: handleMessage_def sendEvent_def)

text \<open>
  C9. The delay that \<open>retry\<close> computes is the incremented counter capped at 15, and a
  LoginResponse resets the counter, as the two lemmas above say. But \<open>retry\<close> calls
  \<open>connect\<close> while it holds \<open>c.mu\<close>, and \<open>connect\<close> starts by locking \<open>c.mu\<close>: the
  call never returns. For a session whose stream ends after the LoginResponse, with a
  server that would accept the next dial, \<open>listen\<close> offers Connect, Error and
  Disconnect, sleeps one second, and blocks; there is no reconnect attempt and no
  second sleep.
\<close>

theorem retry_sleeps_once_and_blocks:
  "isBlocked (listen pb_defaults
       (Inr \<lparr>incoming = [41, 3, 0], written = [], wfail = False, conn_closed = False\<rparr>)
       (session [41, 3, 0]))
   \<and> slept (finalClient (listen pb_defaults
       (Inr \<lparr>incoming = [41, 3, 0], written = [], wfail = False, conn_closed = False\<rparr>)
       (session [41, 3, 0]))) = [1]
   \<and> map Type (eventChan (finalClient (listen pb_defaults
       (Inr \<lparr>incoming = [41, 3, 0], written = [], wfail = False, conn_closed = False\<rparr>)
       (session [41, 3, 0])))) = [EventConnect, EventError, EventDisconnect]"
  by (simp add: listen_def retry_def connect_def run_defs)


end
